theory Spec2Isabelle
  imports Main "HOL-Library.Multiset"
begin

section \<open>The goparallel worker pool as an interleaving transition system\<close>

text \<open>
  The package \<^verbatim>\<open>parallel\<close> (file \<^verbatim>\<open>parallel.go\<close>) runs a slice of \<^verbatim>\<open>Tasker\<close>
  values on \<^verbatim>\<open>workersNumber\<close> goroutines. \<^verbatim>\<open>RunBlocking\<close> starts the goroutine
  \<^verbatim>\<open>populateQueue\<close> (the producer), the goroutine \<^verbatim>\<open>parallelizeWorkers\<close> (which
  starts one \<^verbatim>\<open>evaluateQueue\<close> goroutine per worker) and then loops on a
  \<^verbatim>\<open>select\<close> over \<^verbatim>\<open>doneChan\<close> and \<^verbatim>\<open>prematureEnd\<close>.

  The embedding is a small-step semantics: a state holds the channels, the program
  counter and the local variables of every goroutine; an action names the goroutine
  that moves next; \<open>step\<close> computes the successor state, or \<open>None\<close> when that goroutine
  is blocked. A run is a list of actions, so every interleaving of the goroutines is a
  schedule, and a property of the program is a property of every schedule.
\<close>

subsection \<open>Tasks\<close>

text \<open>
  \<^verbatim>\<open>Tasker\<close> is an interface with the single method \<^verbatim>\<open>Execute()\<close>. The test file
  implements it twice on a struct with one field \<^verbatim>\<open>done bool\<close>:
  \<^verbatim>\<open>func (d *dummy) Execute()\<close> on a pointer receiver and
  \<^verbatim>\<open>func (d dummyNop) Execute()\<close> on a value receiver. An interface value is therefore
  either a pointer to a \<^verbatim>\<open>dummy\<close> in the heap, or a \<^verbatim>\<open>dummyNop\<close> value stored in the
  interface itself. The heap maps an address to the \<^verbatim>\<open>done\<close> field of the \<^verbatim>\<open>dummy\<close>
  allocated there.
\<close>

type_synonym addr = nat

type_synonym heap = "addr \<Rightarrow> bool"

datatype tasker = DummyPtr addr | DummyNop bool

text \<open>
  Both bodies run \<^verbatim>\<open>isPrime\<close> ten thousand times and drop the results, then assign
  \<^verbatim>\<open>d.done = true\<close>. With the pointer receiver the assignment writes the heap; with
  the value receiver \<^verbatim>\<open>d\<close> is the method's own copy, which is dropped on return.
\<close>

fun Execute :: "tasker \<Rightarrow> heap \<Rightarrow> heap" where
  "Execute (DummyPtr a) h = h(a := True)"
| "Execute (DummyNop d) h = (let d' = True in h)"

text \<open>What the tests read after the run: \<^verbatim>\<open>e.(*dummy).done\<close> and \<^verbatim>\<open>e.(dummyNop).done\<close>.\<close>

fun done_of :: "heap \<Rightarrow> tasker \<Rightarrow> bool" where
  "done_of h (DummyPtr a) = h a"
| "done_of h (DummyNop d) = d"

subsection \<open>Channels\<close>

text \<open>
  A buffered Go channel: the queued values, the capacity given to \<^verbatim>\<open>make\<close>, and whether
  \<^verbatim>\<open>close\<close> has been called. A send needs room, a receive needs a queued value or a
  closed channel. \<^verbatim>\<open>prematureEnd\<close> is unbuffered: it never holds a value, and its send
  and receive happen in one joint step.
\<close>

record 'a chan =
  buf :: "'a list"
  cap :: nat
  closed :: bool

definition make_chan :: "nat \<Rightarrow> 'a chan" where
  "make_chan n = \<lparr>buf = [], cap = n, closed = False\<rparr>"

definition can_send :: "'a chan \<Rightarrow> bool" where
  "can_send c = (length (buf c) < cap c)"

definition can_recv :: "'a chan \<Rightarrow> bool" where
  "can_recv c = (buf c \<noteq> [] \<or> closed c)"

definition enqueue :: "'a \<Rightarrow> 'a chan \<Rightarrow> 'a chan" where
  "enqueue v c = c\<lparr>buf := buf c @ [v]\<rparr>"

definition dequeue :: "'a chan \<Rightarrow> 'a chan" where
  "dequeue c = c\<lparr>buf := tl (buf c)\<rparr>"

subsection \<open>Goroutines and the state of a run\<close>

datatype error = ErrTasksNotCompleted

text \<open>
  The program counter of \<^verbatim>\<open>populateQueue\<close>. \<open>PStart\<close>: before \<^verbatim>\<open>signal.Notify\<close>.
  \<open>PPoll i\<close>: at the head of the \<^verbatim>\<open>range\<close> loop with \<open>i\<close> elements done, about to
  evaluate the \<^verbatim>\<open>select\<close>. \<open>PSend i\<close>: in the \<^verbatim>\<open>default\<close> branch, at
  \<^verbatim>\<open>jobsQueue <- t\<close> for element \<open>i\<close>. \<open>PEmit\<close>: in the \<^verbatim>\<open>case <-signalChan\<close> branch,
  at \<^verbatim>\<open>prematureEnd <- struct{}{}\<close>. \<open>PCloseAbort\<close>: at the \<^verbatim>\<open>close(jobsQueue)\<close> of
  that branch. \<open>PCloseEnd\<close>: at the \<^verbatim>\<open>close(jobsQueue)\<close> after the loop. \<open>PReturned\<close>:
  the goroutine has returned.
\<close>

datatype ppc = PStart | PPoll nat | PSend nat | PEmit | PCloseAbort | PCloseEnd | PReturned

text \<open>
  The program counter of one \<^verbatim>\<open>evaluateQueue\<close> goroutine. \<open>WRange\<close>: at the receive of
  \<^verbatim>\<open>for j := range jobsQueue\<close>. \<open>WExecute j\<close>: at \<^verbatim>\<open>j.Execute()\<close>. \<open>WSignal\<close>: at
  \<^verbatim>\<open>doneChan <- struct{}{}\<close>. \<open>WReturned\<close>: the goroutine has returned. The two
  counters are history variables: how many tasks the worker has executed and how many
  values it has sent on \<^verbatim>\<open>doneChan\<close>.
\<close>

datatype wpc = WRange | WExecute tasker | WSignal | WReturned

record worker =
  wpc :: wpc
  executed :: nat
  signals :: nat

datatype cpc = CSelect | CReturned

text \<open>
  The state. \<open>workersNumber\<close> is the package variable initialised from
  \<^verbatim>\<open>runtime.NumCPU()\<close>; \<open>jobs\<close> is the caller's slice; \<open>spawned\<close> is the loop variable
  \<open>i\<close> of \<^verbatim>\<open>parallelizeWorkers\<close>; \<open>totalDone\<close> and \<open>err\<close> are the locals of
  \<^verbatim>\<open>RunBlocking\<close>, \<open>err\<close> being its named result. \<open>panicked\<close> records a run-time panic
  (send on a closed channel, close of a closed channel), which ends the process.

  The remaining fields are history variables, written but never read by a step:
  \<open>sent\<close> lists the tasks put on \<^verbatim>\<open>jobsQueue\<close> in order, \<open>polls\<close> counts the evaluations
  of the producer's \<^verbatim>\<open>select\<close>, \<open>observedAt\<close> is the loop index at which the producer
  took the \<^verbatim>\<open>case <-signalChan\<close> branch, \<open>cancels\<close> counts the values sent on
  \<^verbatim>\<open>prematureEnd\<close>, \<open>closes\<close> counts the calls of \<^verbatim>\<open>close(jobsQueue)\<close>, and \<open>execlog\<close>
  lists the tasks whose \<^verbatim>\<open>Execute()\<close> has run, in the order of the calls.
\<close>

record state =
  workersNumber :: nat
  jobs :: "tasker list"
  heap :: heap
  signalChan :: "unit chan"
  jobsQueue :: "tasker chan"
  doneChan :: "unit chan"
  producer :: ppc
  spawned :: nat
  workers :: "worker list"
  totalDone :: nat
  err :: "error option"
  coordinator :: cpc
  panicked :: bool
  sent :: "tasker list"
  polls :: nat
  observedAt :: "nat option"
  cancels :: nat
  closes :: nat
  execlog :: "tasker list"

text \<open>
  The state in which \<^verbatim>\<open>RunBlocking(jobs)\<close> has made its three channels and started its
  two goroutines: \<open>n\<close> is the value of \<^verbatim>\<open>runtime.NumCPU()\<close>, \<open>h\<close> the caller's heap.
\<close>

definition init_state :: "nat \<Rightarrow> tasker list \<Rightarrow> heap \<Rightarrow> state" where
  "init_state n js h =
    \<lparr>workersNumber = n, jobs = js, heap = h,
     signalChan = make_chan 1,
     jobsQueue = make_chan n,
     doneChan = make_chan n,
     producer = PStart, spawned = 0, workers = [],
     totalDone = 0, err = None, coordinator = CSelect, panicked = False,
     sent = [], polls = 0, observedAt = None, cancels = 0, closes = 0, execlog = []\<rparr>"

subsection \<open>Steps\<close>

text \<open>
  \<^verbatim>\<open>close(jobsQueue)\<close>: closing a closed channel panics.
\<close>

definition close_jobsQueue :: "state \<Rightarrow> state" where
  "close_jobsQueue s =
    (if closed (jobsQueue s) then s\<lparr>panicked := True\<rparr>
     else s\<lparr>jobsQueue := (jobsQueue s)\<lparr>closed := True\<rparr>, closes := closes s + 1\<rparr>)"

text \<open>
  One step of \<^verbatim>\<open>populateQueue\<close>. The \<^verbatim>\<open>select\<close> has a \<^verbatim>\<open>default\<close>, so it never
  blocks: it takes \<^verbatim>\<open>case <-signalChan\<close> when a signal is queued and \<^verbatim>\<open>default\<close>
  otherwise. The send on \<^verbatim>\<open>jobsQueue\<close> blocks while the buffer is full and panics on
  a closed channel. The send on \<^verbatim>\<open>prematureEnd\<close> is the joint step \<open>recvPremature\<close>
  below, so the producer alone cannot move at \<open>PEmit\<close>.
\<close>

definition produce :: "state \<Rightarrow> state option" where
  "produce s =
    (case producer s of
       PStart \<Rightarrow> Some (s\<lparr>producer := PPoll 0\<rparr>)
     | PPoll i \<Rightarrow>
         if i < length (jobs s) then
           (if can_recv (signalChan s)
            then Some (s\<lparr>signalChan := dequeue (signalChan s), producer := PEmit,
                         polls := polls s + 1, observedAt := Some i\<rparr>)
            else Some (s\<lparr>producer := PSend i, polls := polls s + 1\<rparr>))
         else Some (s\<lparr>producer := PCloseEnd\<rparr>)
     | PSend i \<Rightarrow>
         if closed (jobsQueue s) then Some (s\<lparr>panicked := True\<rparr>)
         else if can_send (jobsQueue s)
         then Some (s\<lparr>jobsQueue := enqueue (jobs s ! i) (jobsQueue s),
                      producer := PPoll (i + 1), sent := sent s @ [jobs s ! i]\<rparr>)
         else None
     | PEmit \<Rightarrow> None
     | PCloseAbort \<Rightarrow> Some ((close_jobsQueue s)\<lparr>producer := PReturned\<rparr>)
     | PCloseEnd \<Rightarrow> Some ((close_jobsQueue s)\<lparr>producer := PReturned\<rparr>)
     | PReturned \<Rightarrow> None)"

text \<open>
  One iteration of the loop of \<^verbatim>\<open>parallelizeWorkers\<close>: \<^verbatim>\<open>go evaluateQueue(...)\<close>.
\<close>

definition spawn :: "state \<Rightarrow> state option" where
  "spawn s =
    (if spawned s < workersNumber s
     then Some (s\<lparr>workers := workers s @ [\<lparr>wpc = WRange, executed = 0, signals = 0\<rparr>],
                  spawned := spawned s + 1\<rparr>)
     else None)"

text \<open>
  One step of the \<open>k\<close>-th \<^verbatim>\<open>evaluateQueue\<close> goroutine. The \<^verbatim>\<open>range\<close> receives the
  oldest queued task, ends when the channel is closed and empty, and blocks when it is
  open and empty. The send on \<^verbatim>\<open>doneChan\<close> blocks while that buffer is full.
\<close>

definition work :: "nat \<Rightarrow> state \<Rightarrow> state option" where
  "work k s =
    (if k < length (workers s) then
       (let w = workers s ! k in
        case wpc w of
          WRange \<Rightarrow>
            (case buf (jobsQueue s) of
               j # rest \<Rightarrow>
                 Some (s\<lparr>jobsQueue := dequeue (jobsQueue s),
                         workers := (workers s)[k := w\<lparr>wpc := WExecute j\<rparr>]\<rparr>)
             | [] \<Rightarrow>
                 if closed (jobsQueue s)
                 then Some (s\<lparr>workers := (workers s)[k := w\<lparr>wpc := WSignal\<rparr>]\<rparr>)
                 else None)
        | WExecute j \<Rightarrow>
            Some (s\<lparr>heap := Execute j (heap s),
                    workers := (workers s)[k := w\<lparr>wpc := WRange, executed := executed w + 1\<rparr>],
                    execlog := execlog s @ [j]\<rparr>)
        | WSignal \<Rightarrow>
            if closed (doneChan s) then Some (s\<lparr>panicked := True\<rparr>)
            else if can_send (doneChan s)
            then Some (s\<lparr>doneChan := enqueue () (doneChan s),
                         workers := (workers s)[k := w\<lparr>wpc := WReturned, signals := signals w + 1\<rparr>]\<rparr>)
            else None
        | WReturned \<Rightarrow> None)
     else None)"

text \<open>
  The coordinator: the statement after the \<^verbatim>\<open>select\<close>,
  \<^verbatim>\<open>if totalDone == workersNumber { break }\<close>, followed by \<^verbatim>\<open>return\<close>.
\<close>

definition check_done :: "state \<Rightarrow> state" where
  "check_done s =
    (if totalDone s = workersNumber s then s\<lparr>coordinator := CReturned\<rparr> else s)"

text \<open>\<^verbatim>\<open>case <-doneChan: totalDone++\<close>, then the test.\<close>

definition recvDone :: "state \<Rightarrow> state option" where
  "recvDone s =
    (if coordinator s = CSelect \<and> can_recv (doneChan s)
     then Some (check_done (s\<lparr>doneChan := dequeue (doneChan s), totalDone := totalDone s + 1\<rparr>))
     else None)"

text \<open>
  \<^verbatim>\<open>case <-prematureEnd: err = ErrTasksNotCompleted\<close>, then the test. The channel is
  unbuffered, so the receive happens together with the producer's send at \<open>PEmit\<close>.
\<close>

definition recvPremature :: "state \<Rightarrow> state option" where
  "recvPremature s =
    (if coordinator s = CSelect \<and> producer s = PEmit
     then Some (check_done (s\<lparr>producer := PCloseAbort, err := Some ErrTasksNotCompleted,
                              cancels := cancels s + 1\<rparr>))
     else None)"

text \<open>
  The environment delivers \<^verbatim>\<open>os.Interrupt\<close>. Once \<^verbatim>\<open>signal.Notify\<close> has registered
  \<^verbatim>\<open>signalChan\<close> (capacity 1), the signal package sends without blocking: the value is
  queued if there is room and dropped otherwise. Before the registration an interrupt
  ends the process, which is not a run of \<^verbatim>\<open>RunBlocking\<close>.
\<close>

definition interrupt :: "state \<Rightarrow> state option" where
  "interrupt s =
    (if producer s = PStart then None
     else if can_send (signalChan s) then Some (s\<lparr>signalChan := enqueue () (signalChan s)\<rparr>)
     else Some s)"

datatype action = Interrupt | Produce | Spawn | Work nat | RecvDone | RecvPremature

text \<open>A panic ends the process: no goroutine moves afterwards.\<close>

definition step :: "action \<Rightarrow> state \<Rightarrow> state option" where
  "step a s =
    (if panicked s then None
     else case a of
       Interrupt \<Rightarrow> interrupt s
     | Produce \<Rightarrow> produce s
     | Spawn \<Rightarrow> spawn s
     | Work k \<Rightarrow> work k s
     | RecvDone \<Rightarrow> recvDone s
     | RecvPremature \<Rightarrow> recvPremature s)"

text \<open>A schedule is run from left to right; it fails where its next goroutine is blocked.\<close>

fun run :: "action list \<Rightarrow> state \<Rightarrow> state option" where
  "run [] s = Some s"
| "run (a # as) s = (case step a s of None \<Rightarrow> None | Some s' \<Rightarrow> run as s')"

subsection \<open>Invariants of a run\<close>

text \<open>
  The tasks that have been received from \<^verbatim>\<open>jobsQueue\<close> and whose \<^verbatim>\<open>Execute()\<close> has
  not run yet, as a multiset, and the number of values the workers have sent on
  \<^verbatim>\<open>doneChan\<close>.
\<close>

fun holding :: "wpc \<Rightarrow> tasker multiset" where
  "holding (WExecute j) = {#j#}"
| "holding WRange = {#}"
| "holding WSignal = {#}"
| "holding WReturned = {#}"

definition inflight :: "worker list \<Rightarrow> tasker multiset" where
  "inflight ws = sum_list (map (\<lambda>w. holding (wpc w)) ws)"

definition signalled :: "worker list \<Rightarrow> nat" where
  "signalled ws = sum_list (map signals ws)"

text \<open>
  What no step changes, and the bounds that the loop of \<^verbatim>\<open>parallelizeWorkers\<close> and
  the capacity of \<^verbatim>\<open>jobsQueue\<close> keep.
\<close>

definition frame_inv :: "nat \<Rightarrow> tasker list \<Rightarrow> state \<Rightarrow> bool" where
  "frame_inv n js s =
    (workersNumber s = n \<and> jobs s = js \<and>
     cap (jobsQueue s) = n \<and> cap (doneChan s) = n \<and> cap (signalChan s) = 1 \<and>
     \<not> closed (doneChan s) \<and> \<not> closed (signalChan s) \<and> \<not> panicked s \<and>
     length (workers s) = spawned s \<and> spawned s \<le> n \<and>
     length (buf (jobsQueue s)) \<le> n)"

text \<open>
  The history variables at each program point of \<^verbatim>\<open>populateQueue\<close>: in the loop the
  producer has sent the first \<open>i\<close> tasks and polled once per iteration; after taking
  \<^verbatim>\<open>case <-signalChan\<close> it sends nothing more.
\<close>

fun producer_at :: "tasker list \<Rightarrow> state \<Rightarrow> ppc \<Rightarrow> bool" where
  "producer_at js s PStart =
     (sent s = [] \<and> polls s = 0 \<and> observedAt s = None \<and> cancels s = 0)"
| "producer_at js s (PPoll i) =
     (length (sent s) = i \<and> polls s = i \<and> observedAt s = None \<and> cancels s = 0)"
| "producer_at js s (PSend i) =
     (length (sent s) = i \<and> i < length js \<and> polls s = i + 1 \<and> observedAt s = None \<and> cancels s = 0)"
| "producer_at js s PEmit =
     (observedAt s = Some (length (sent s)) \<and> length (sent s) < length js \<and>
      polls s = length (sent s) + 1 \<and> cancels s = 0)"
| "producer_at js s PCloseAbort =
     (observedAt s = Some (length (sent s)) \<and> length (sent s) < length js \<and>
      polls s = length (sent s) + 1 \<and> cancels s = 1)"
| "producer_at js s PCloseEnd =
     (sent s = js \<and> polls s = length js \<and> observedAt s = None \<and> cancels s = 0)"
| "producer_at js s PReturned =
     (if observedAt s = None then sent s = js \<and> polls s = length js \<and> cancels s = 0
      else observedAt s = Some (length (sent s)) \<and> length (sent s) < length js \<and>
           polls s = length (sent s) + 1 \<and> cancels s = 1)"

definition producer_inv :: "tasker list \<Rightarrow> state \<Rightarrow> bool" where
  "producer_inv js s =
    (sent s = take (length (sent s)) js \<and> length (sent s) \<le> length js \<and>
     closes s = (if closed (jobsQueue s) then 1 else 0) \<and>
     (closed (jobsQueue s) \<longleftrightarrow> producer s = PReturned) \<and>
     err s = (if cancels s = 0 then None else Some ErrTasksNotCompleted) \<and>
     producer_at js s (producer s))"

text \<open>
  Every task sent is in the queue, held by a worker, or executed; and the workers'
  own counts add up to the length of the execution log.
\<close>

definition queue_inv :: "state \<Rightarrow> bool" where
  "queue_inv s =
    (mset (sent s) = mset (buf (jobsQueue s)) + inflight (workers s) + mset (execlog s) \<and>
     sum_list (map executed (workers s)) = length (execlog s))"

text \<open>
  A worker leaves its \<^verbatim>\<open>range\<close> loop only when \<^verbatim>\<open>jobsQueue\<close> is closed and empty, and
  it has sent on \<^verbatim>\<open>doneChan\<close> exactly when it has returned.
\<close>

definition worker_ok :: "state \<Rightarrow> worker \<Rightarrow> bool" where
  "worker_ok s w =
    ((wpc w = WSignal \<or> wpc w = WReturned \<longrightarrow> closed (jobsQueue s) \<and> buf (jobsQueue s) = []) \<and>
     signals w = (if wpc w = WReturned then 1 else 0))"

definition worker_inv :: "state \<Rightarrow> bool" where
  "worker_inv s = (\<forall>w \<in> set (workers s). worker_ok s w)"

text \<open>
  Every value sent on \<^verbatim>\<open>doneChan\<close> is still buffered or has been counted in
  \<^verbatim>\<open>totalDone\<close>, and the coordinator has returned exactly when the count is full.
\<close>

definition count_inv :: "nat \<Rightarrow> state \<Rightarrow> bool" where
  "count_inv n s =
    (signalled (workers s) = length (buf (doneChan s)) + totalDone s \<and>
     (coordinator s = CSelect \<longrightarrow> totalDone s < n) \<and>
     (coordinator s = CReturned \<longrightarrow> totalDone s = n))"

text \<open>The heap differs from the caller's only where a pointer task has been executed.\<close>

definition heap_inv :: "heap \<Rightarrow> state \<Rightarrow> bool" where
  "heap_inv h s = (\<forall>a. heap s a = (h a \<or> DummyPtr a \<in> set (execlog s)))"

definition inv :: "nat \<Rightarrow> tasker list \<Rightarrow> heap \<Rightarrow> state \<Rightarrow> bool" where
  "inv n js h s =
    (0 < n \<and> frame_inv n js s \<and> producer_inv js s \<and> queue_inv s \<and> worker_inv s \<and>
     count_inv n s \<and> heap_inv h s)"

subsection \<open>A bound on the length of a run\<close>

text \<open>
  Every step of a goroutine lowers \<open>potential\<close>; an interrupt leaves it unchanged.
  \<open>program_steps\<close> counts the steps of a schedule that are steps of the program.
\<close>

fun producer_rank :: "nat \<Rightarrow> ppc \<Rightarrow> nat" where
  "producer_rank N PStart = 4 * N + 4"
| "producer_rank N (PPoll i) = 4 * (N - i) + 3"
| "producer_rank N (PSend i) = 4 * (N - i) + 2"
| "producer_rank N PEmit = 2"
| "producer_rank N PCloseAbort = 1"
| "producer_rank N PCloseEnd = 1"
| "producer_rank N PReturned = 0"

fun worker_rank :: "wpc \<Rightarrow> nat" where
  "worker_rank WRange = 3"
| "worker_rank (WExecute j) = 4"
| "worker_rank WSignal = 2"
| "worker_rank WReturned = 0"

definition potential :: "state \<Rightarrow> nat" where
  "potential s =
     producer_rank (length (jobs s)) (producer s) +
     2 * length (buf (jobsQueue s)) +
     4 * (workersNumber s - spawned s) +
     sum_list (map (\<lambda>w. worker_rank (wpc w)) (workers s)) +
     length (buf (doneChan s))"

definition program_steps :: "action list \<Rightarrow> nat" where
  "program_steps sched = length (filter (\<lambda>a. a \<noteq> Interrupt) sched)"


subsection \<open>Example runs\<close>

text \<open>
  Three tasks on two workers, as in \<^verbatim>\<open>TestRunBlocking\<close> and
  \<^verbatim>\<open>TestRunBlocking_nopointer\<close>: two \<^verbatim>\<open>*dummy\<close> and one \<^verbatim>\<open>dummyNop\<close>, all with
  \<^verbatim>\<open>done\<close> false. The first schedule runs to completion; in the second an interrupt
  arrives after the first send; the third runs the empty slice.
\<close>

definition example_jobs :: "tasker list" where
  "example_jobs = [DummyPtr 0, DummyNop False, DummyPtr 1]"

definition example_heap :: heap where
  "example_heap = (\<lambda>a. False)"

definition example_schedule :: "action list" where
  "example_schedule =
    [Produce, Spawn, Produce, Produce, Spawn, Work 0, Produce, Produce, Work 1, Work 1,
     Work 0, Produce, Produce, Produce, Produce, Work 0, Work 0, Work 1, Work 0, Work 0,
     Work 1, RecvDone, RecvDone]"

definition example_cancelled :: "action list" where
  "example_cancelled =
    [Produce, Spawn, Produce, Produce, Interrupt, Spawn, Work 0, Produce, RecvPremature,
     Produce, Work 0, Work 1, Work 0, Work 0, Work 1, RecvDone, RecvDone]"

definition example_empty :: "action list" where
  "example_empty =
    [Produce, Produce, Produce, Spawn, Spawn, Work 0, Work 0, Work 1, Work 1,
     RecvDone, RecvDone]"

text \<open>
  Two tasks on two workers: both are sent before any is received, worker 0 receives the
  first and worker 1 the second, and worker 1 runs \<^verbatim>\<open>Execute()\<close> first.
\<close>

definition swapped_schedule :: "action list" where
  "swapped_schedule =
    [Produce, Produce, Produce, Produce, Produce, Produce, Produce, Spawn, Spawn,
     Work 0, Work 1, Work 1, Work 0, Work 0, Work 0, Work 1, Work 1, RecvDone, RecvDone]"

section \<open>Proofs\<close>

subsection \<open>Auxiliary facts\<close>

lemma sum_list_map_update:
  fixes f :: "'a \<Rightarrow> 'b::comm_monoid_add"
  shows "k < length xs \<Longrightarrow>
    sum_list (map f (xs[k := y])) + f (xs ! k) = sum_list (map f xs) + f y"
proof (induction xs arbitrary: k)
  case Nil
  then show ?case by simp
next
  case (Cons x xs)
  show ?case
  proof (cases k)
    case 0
    then show ?thesis by (simp add: ac_simps)
  next
    case (Suc m)
    with Cons.prems have "m < length xs" by simp
    from Cons.IH[OF this] Suc show ?thesis
      by (simp add: ac_simps)
  qed
qed

lemma signals_sum_le:
  "\<forall>w \<in> set ws. signals w \<le> 1 \<Longrightarrow> signalled ws \<le> length ws"
  unfolding signalled_def by (induction ws) auto

lemma signals_sum_less:
  "\<forall>w \<in> set ws. signals w \<le> 1 \<Longrightarrow> k < length ws \<Longrightarrow> signals (ws ! k) = 0 \<Longrightarrow>
   signalled ws < length ws"
proof (induction ws arbitrary: k)
  case Nil
  then show ?case by simp
next
  case (Cons w ws)
  have le: "signalled ws \<le> length ws"
    using Cons.prems(1) by (intro signals_sum_le) simp
  show ?case
  proof (cases k)
    case 0
    with Cons.prems le show ?thesis by (simp add: signalled_def)
  next
    case (Suc m)
    with Cons.prems have "signalled ws < length ws"
      by (intro Cons.IH[of m]) auto
    moreover have "signals w \<le> 1" using Cons.prems(1) by simp
    ultimately show ?thesis by (simp add: signalled_def)
  qed
qed

lemma signals_sum_full:
  "\<forall>w \<in> set ws. signals w \<le> 1 \<Longrightarrow> length ws \<le> signalled ws \<Longrightarrow>
   \<forall>w \<in> set ws. signals w = 1"
proof (induction ws)
  case Nil
  then show ?case by simp
next
  case (Cons w ws)
  have le: "signalled ws \<le> length ws"
    using Cons.prems(1) by (intro signals_sum_le) simp
  have w1: "signals w \<le> 1" using Cons.prems(1) by simp
  from Cons.prems(2) have "Suc (length ws) \<le> signals w + signalled ws"
    by (simp add: signalled_def)
  with le w1 have "signals w = 1" and "length ws \<le> signalled ws" by linarith+
  with Cons.IH Cons.prems(1) show ?case by simp
qed

lemma inv_init: "0 < n \<Longrightarrow> inv n js h (init_state n js h)"
  by (simp add: inv_def frame_inv_def producer_inv_def queue_inv_def worker_inv_def
      count_inv_def heap_inv_def init_state_def make_chan_def inflight_def signalled_def)

lemmas chan_defs = make_chan_def can_send_def can_recv_def enqueue_def dequeue_def

lemma produce_frame:
  "frame_inv n js s \<Longrightarrow> producer_inv js s \<Longrightarrow> produce s = Some s' \<Longrightarrow> frame_inv n js s'"
  by (cases "producer s")
     (auto simp: frame_inv_def producer_inv_def produce_def close_jobsQueue_def chan_defs
           split: if_splits)

lemma produce_producer:
  "frame_inv n js s \<Longrightarrow> producer_inv js s \<Longrightarrow> produce s = Some s' \<Longrightarrow> producer_inv js s'"
  by (cases "producer s")
     (auto simp: frame_inv_def producer_inv_def produce_def close_jobsQueue_def chan_defs
           take_Suc_conv_app_nth split: if_splits)

lemma produce_queue:
  "frame_inv n js s \<Longrightarrow> producer_inv js s \<Longrightarrow> queue_inv s \<Longrightarrow> produce s = Some s' \<Longrightarrow> queue_inv s'"
  by (cases "producer s")
     (auto simp: frame_inv_def producer_inv_def queue_inv_def produce_def close_jobsQueue_def
           chan_defs split: if_splits)

lemma produce_worker:
  "producer_inv js s \<Longrightarrow> worker_inv s \<Longrightarrow> produce s = Some s' \<Longrightarrow> worker_inv s'"
  by (cases "producer s")
     (auto simp: producer_inv_def worker_inv_def worker_ok_def produce_def close_jobsQueue_def
           chan_defs split: if_splits)

lemma produce_count:
  "producer_inv js s \<Longrightarrow> count_inv n s \<Longrightarrow> produce s = Some s' \<Longrightarrow> count_inv n s'"
  by (cases "producer s")
     (auto simp: producer_inv_def count_inv_def produce_def close_jobsQueue_def
           chan_defs split: if_splits)

lemma produce_heap:
  "producer_inv js s \<Longrightarrow> heap_inv h s \<Longrightarrow> produce s = Some s' \<Longrightarrow> heap_inv h s'"
  by (cases "producer s")
     (auto simp: producer_inv_def heap_inv_def produce_def close_jobsQueue_def
           chan_defs split: if_splits)

lemma produce_inv: "inv n js h s \<Longrightarrow> produce s = Some s' \<Longrightarrow> inv n js h s'"
  unfolding inv_def
  by (intro conjI; (elim conjE)?;
      (assumption | erule (2) produce_frame | erule (2) produce_producer
       | erule (3) produce_queue | erule (2) produce_worker | erule (2) produce_count
       | erule (2) produce_heap))

lemma inflight_update:
  "k < length ws \<Longrightarrow>
   inflight (ws[k := w]) + holding (wpc (ws ! k)) = inflight ws + holding (wpc w)"
  unfolding inflight_def by (rule sum_list_map_update)

lemma signalled_update:
  "k < length ws \<Longrightarrow> signalled (ws[k := w]) + signals (ws ! k) = signalled ws + signals w"
  unfolding signalled_def by (rule sum_list_map_update)

lemma executed_update:
  "k < length ws \<Longrightarrow>
   sum_list (map executed (ws[k := w])) + executed (ws ! k) = sum_list (map executed ws) + executed w"
  by (rule sum_list_map_update)

lemma worker_inv_nth: "worker_inv s \<Longrightarrow> k < length (workers s) \<Longrightarrow> worker_ok s (workers s ! k)"
  by (simp add: worker_inv_def)

lemma worker_inv_update:
  assumes "\<forall>w \<in> set ws. P w" and "P w'"
  shows "\<forall>w \<in> set (ws[k := w']). P w"
  using assms set_update_subset_insert[of ws k w'] by auto

lemma spawn_frame: "frame_inv n js s \<Longrightarrow> spawn s = Some s' \<Longrightarrow> frame_inv n js s'"
  by (auto simp: frame_inv_def spawn_def split: if_splits)

lemma spawn_producer: "producer_inv js s \<Longrightarrow> spawn s = Some s' \<Longrightarrow> producer_inv js s'"
  by (cases "producer s") (auto simp: producer_inv_def spawn_def split: if_splits)

lemma spawn_queue: "queue_inv s \<Longrightarrow> spawn s = Some s' \<Longrightarrow> queue_inv s'"
  by (auto simp: queue_inv_def spawn_def inflight_def split: if_splits)

lemma spawn_worker: "worker_inv s \<Longrightarrow> spawn s = Some s' \<Longrightarrow> worker_inv s'"
  by (auto simp: worker_inv_def worker_ok_def spawn_def split: if_splits)

lemma spawn_count: "count_inv n s \<Longrightarrow> spawn s = Some s' \<Longrightarrow> count_inv n s'"
  by (auto simp: count_inv_def spawn_def signalled_def split: if_splits)

lemma spawn_heap: "heap_inv h s \<Longrightarrow> spawn s = Some s' \<Longrightarrow> heap_inv h s'"
  by (auto simp: heap_inv_def spawn_def split: if_splits)

lemma spawn_inv: "inv n js h s \<Longrightarrow> spawn s = Some s' \<Longrightarrow> inv n js h s'"
  unfolding inv_def
  using spawn_frame spawn_producer spawn_queue spawn_worker spawn_count spawn_heap
  by (elim conjE) (intro conjI; assumption?; blast)

lemma interrupt_frame: "frame_inv n js s \<Longrightarrow> interrupt s = Some s' \<Longrightarrow> frame_inv n js s'"
  by (auto simp: frame_inv_def interrupt_def chan_defs split: if_splits)

lemma interrupt_producer: "producer_inv js s \<Longrightarrow> interrupt s = Some s' \<Longrightarrow> producer_inv js s'"
  by (cases "producer s") (auto simp: producer_inv_def interrupt_def split: if_splits)

lemma interrupt_queue: "queue_inv s \<Longrightarrow> interrupt s = Some s' \<Longrightarrow> queue_inv s'"
  by (auto simp: queue_inv_def interrupt_def split: if_splits)

lemma interrupt_worker: "worker_inv s \<Longrightarrow> interrupt s = Some s' \<Longrightarrow> worker_inv s'"
  by (auto simp: worker_inv_def worker_ok_def interrupt_def split: if_splits)

lemma interrupt_count: "count_inv n s \<Longrightarrow> interrupt s = Some s' \<Longrightarrow> count_inv n s'"
  by (auto simp: count_inv_def interrupt_def split: if_splits)

lemma interrupt_heap: "heap_inv h s \<Longrightarrow> interrupt s = Some s' \<Longrightarrow> heap_inv h s'"
  by (auto simp: heap_inv_def interrupt_def split: if_splits)

lemma interrupt_inv: "inv n js h s \<Longrightarrow> interrupt s = Some s' \<Longrightarrow> inv n js h s'"
  unfolding inv_def
  using interrupt_frame interrupt_producer interrupt_queue interrupt_worker interrupt_count
    interrupt_heap
  by (elim conjE) (intro conjI; assumption?; blast)

lemma recvPremature_frame:
  "frame_inv n js s \<Longrightarrow> recvPremature s = Some s' \<Longrightarrow> frame_inv n js s'"
  by (auto simp: frame_inv_def recvPremature_def check_done_def split: if_splits)

lemma recvPremature_producer:
  "producer_inv js s \<Longrightarrow> recvPremature s = Some s' \<Longrightarrow> producer_inv js s'"
  by (auto simp: producer_inv_def recvPremature_def check_done_def split: if_splits)

lemma recvPremature_queue: "queue_inv s \<Longrightarrow> recvPremature s = Some s' \<Longrightarrow> queue_inv s'"
  by (auto simp: queue_inv_def recvPremature_def check_done_def split: if_splits)

lemma recvPremature_worker: "worker_inv s \<Longrightarrow> recvPremature s = Some s' \<Longrightarrow> worker_inv s'"
  by (auto simp: worker_inv_def worker_ok_def recvPremature_def check_done_def split: if_splits)

lemma recvPremature_count:
  "frame_inv n js s \<Longrightarrow> count_inv n s \<Longrightarrow> recvPremature s = Some s' \<Longrightarrow> count_inv n s'"
  by (auto simp: frame_inv_def count_inv_def recvPremature_def check_done_def split: if_splits)

lemma recvPremature_heap: "heap_inv h s \<Longrightarrow> recvPremature s = Some s' \<Longrightarrow> heap_inv h s'"
  by (auto simp: heap_inv_def recvPremature_def check_done_def split: if_splits)

lemma recvPremature_inv: "inv n js h s \<Longrightarrow> recvPremature s = Some s' \<Longrightarrow> inv n js h s'"
  unfolding inv_def
  using recvPremature_frame recvPremature_producer recvPremature_queue recvPremature_worker
    recvPremature_count recvPremature_heap
  by (elim conjE) (intro conjI; assumption?; blast)

lemma worker_inv_signals_le: "worker_inv s \<Longrightarrow> \<forall>w \<in> set (workers s). signals w \<le> 1"
  by (auto simp: worker_inv_def worker_ok_def)

lemma signalled_le_n:
  "frame_inv n js s \<Longrightarrow> worker_inv s \<Longrightarrow> signalled (workers s) \<le> n"
  using signals_sum_le[OF worker_inv_signals_le, of s]
  by (simp add: frame_inv_def)

lemma recvDone_frame: "frame_inv n js s \<Longrightarrow> recvDone s = Some s' \<Longrightarrow> frame_inv n js s'"
  by (auto simp: frame_inv_def recvDone_def check_done_def chan_defs split: if_splits)

lemma recvDone_producer: "producer_inv js s \<Longrightarrow> recvDone s = Some s' \<Longrightarrow> producer_inv js s'"
  by (cases "producer s")
     (auto simp: producer_inv_def recvDone_def check_done_def split: if_splits)

lemma recvDone_queue: "queue_inv s \<Longrightarrow> recvDone s = Some s' \<Longrightarrow> queue_inv s'"
  by (auto simp: queue_inv_def recvDone_def check_done_def split: if_splits)

lemma recvDone_worker: "worker_inv s \<Longrightarrow> recvDone s = Some s' \<Longrightarrow> worker_inv s'"
  by (auto simp: worker_inv_def worker_ok_def recvDone_def check_done_def split: if_splits)

lemma recvDone_count:
  assumes "frame_inv n js s" "worker_inv s" "count_inv n s" "recvDone s = Some s'"
  shows "count_inv n s'"
proof -
  from assms(4) have sel: "coordinator s = CSelect" and rcv: "can_recv (doneChan s)"
    and s': "s' = check_done (s\<lparr>doneChan := dequeue (doneChan s), totalDone := totalDone s + 1\<rparr>)"
    by (auto simp: recvDone_def split: if_splits)
  from rcv assms(1) have ne: "buf (doneChan s) \<noteq> []"
    by (simp add: can_recv_def frame_inv_def)
  from assms(3) have cnt: "signalled (workers s) = length (buf (doneChan s)) + totalDone s"
    by (simp add: count_inv_def)
  from ne obtain x rest where buf: "buf (doneChan s) = x # rest"
    by (cases "buf (doneChan s)") simp_all
  from signalled_le_n[OF assms(1,2)] cnt buf have "totalDone s + 1 \<le> n" by simp
  with cnt buf sel assms(1) show ?thesis
    by (auto simp: s' count_inv_def check_done_def dequeue_def frame_inv_def)
qed

lemma recvDone_heap: "heap_inv h s \<Longrightarrow> recvDone s = Some s' \<Longrightarrow> heap_inv h s'"
  by (auto simp: heap_inv_def recvDone_def check_done_def split: if_splits)

lemma recvDone_inv: "inv n js h s \<Longrightarrow> recvDone s = Some s' \<Longrightarrow> inv n js h s'"
  unfolding inv_def
  using recvDone_frame recvDone_producer recvDone_queue recvDone_worker
    recvDone_count recvDone_heap
  by (elim conjE) (intro conjI; assumption?; blast)

lemma work_cases [consumes 1, case_names recv leave exec panic signal]:
  assumes "work k s = Some s'"
  obtains
    j rest where "k < length (workers s)" "wpc (workers s ! k) = WRange"
      "buf (jobsQueue s) = j # rest"
      "s' = s\<lparr>jobsQueue := dequeue (jobsQueue s),
              workers := (workers s)[k := (workers s ! k)\<lparr>wpc := WExecute j\<rparr>]\<rparr>"
  | "k < length (workers s)" "wpc (workers s ! k) = WRange"
      "buf (jobsQueue s) = []" "closed (jobsQueue s)"
      "s' = s\<lparr>workers := (workers s)[k := (workers s ! k)\<lparr>wpc := WSignal\<rparr>]\<rparr>"
  | j where "k < length (workers s)" "wpc (workers s ! k) = WExecute j"
      "s' = s\<lparr>heap := Execute j (heap s),
              workers := (workers s)[k := (workers s ! k)\<lparr>wpc := WRange,
                 executed := executed (workers s ! k) + 1\<rparr>],
              execlog := execlog s @ [j]\<rparr>"
  | "k < length (workers s)" "wpc (workers s ! k) = WSignal" "closed (doneChan s)"
      "s' = s\<lparr>panicked := True\<rparr>"
  | "k < length (workers s)" "wpc (workers s ! k) = WSignal" "\<not> closed (doneChan s)"
      "can_send (doneChan s)"
      "s' = s\<lparr>doneChan := enqueue () (doneChan s),
              workers := (workers s)[k := (workers s ! k)\<lparr>wpc := WReturned,
                 signals := signals (workers s ! k) + 1\<rparr>]\<rparr>"
  using assms
  by (auto simp: work_def Let_def split: if_splits wpc.splits list.splits)

lemma work_frame:
  assumes "frame_inv n js s" "work k s = Some s'"
  shows "frame_inv n js s'"
  using assms(2)
proof (cases rule: work_cases)
  case (recv j rest)
  with assms(1) show ?thesis by (simp add: frame_inv_def dequeue_def)
next
  case leave
  with assms(1) show ?thesis by (simp add: frame_inv_def)
next
  case (exec j)
  with assms(1) show ?thesis by (simp add: frame_inv_def)
next
  case panic
  with assms(1) show ?thesis by (simp add: frame_inv_def)
next
  case signal
  with assms(1) show ?thesis by (simp add: frame_inv_def enqueue_def)
qed

lemma work_producer:
  assumes "frame_inv n js s" "producer_inv js s" "work k s = Some s'"
  shows "producer_inv js s'"
  using assms(3)
proof (cases rule: work_cases)
  case (recv j rest)
  with assms(2) show ?thesis
    by (cases "producer s") (simp_all add: producer_inv_def dequeue_def)
next
  case leave
  with assms(2) show ?thesis by (cases "producer s") (simp_all add: producer_inv_def)
next
  case (exec j)
  with assms(2) show ?thesis by (cases "producer s") (simp_all add: producer_inv_def)
next
  case panic
  with assms(1) show ?thesis by (simp add: frame_inv_def)
next
  case signal
  with assms(2) show ?thesis by (cases "producer s") (simp_all add: producer_inv_def)
qed

lemma work_queue:
  assumes "frame_inv n js s" "queue_inv s" "work k s = Some s'"
  shows "queue_inv s'"
  using assms(3)
proof (cases rule: work_cases)
  case (recv j rest)
  from inflight_update[OF recv(1), of "(workers s ! k)\<lparr>wpc := WExecute j\<rparr>"]
       executed_update[OF recv(1), of "(workers s ! k)\<lparr>wpc := WExecute j\<rparr>"]
       recv assms(2)
  show ?thesis by (simp add: queue_inv_def dequeue_def)
next
  case leave
  from inflight_update[OF leave(1), of "(workers s ! k)\<lparr>wpc := WSignal\<rparr>"]
       executed_update[OF leave(1), of "(workers s ! k)\<lparr>wpc := WSignal\<rparr>"]
       leave assms(2)
  show ?thesis by (simp add: queue_inv_def)
next
  case (exec j)
  let ?w = "(workers s ! k)\<lparr>wpc := WRange, executed := executed (workers s ! k) + 1\<rparr>"
  from inflight_update[OF exec(1), of ?w]
  have a: "inflight ((workers s)[k := ?w]) + {#j#} = inflight (workers s)"
    using exec(2) by simp
  from executed_update[OF exec(1), of ?w]
  have b: "sum_list (map executed ((workers s)[k := ?w])) = sum_list (map executed (workers s)) + 1"
    by simp
  from assms(2) have "mset (sent s) =
      mset (buf (jobsQueue s)) + (inflight ((workers s)[k := ?w]) + {#j#}) + mset (execlog s)"
    unfolding a by (simp add: queue_inv_def)
  with b assms(2) exec show ?thesis by (simp add: queue_inv_def)
next
  case panic
  with assms(1) show ?thesis by (simp add: frame_inv_def)
next
  case signal
  let ?w = "(workers s ! k)\<lparr>wpc := WReturned, signals := signals (workers s ! k) + 1\<rparr>"
  from inflight_update[OF signal(1), of ?w] executed_update[OF signal(1), of ?w]
       signal assms(2)
  show ?thesis by (simp add: queue_inv_def)
qed

lemma work_worker:
  assumes "frame_inv n js s" "worker_inv s" "work k s = Some s'"
  shows "worker_inv s'"
  using assms(3)
proof (cases rule: work_cases)
  case (recv j rest)
  have "\<forall>w \<in> set ((workers s)[k := (workers s ! k)\<lparr>wpc := WExecute j\<rparr>]). worker_ok s' w"
  proof (rule worker_inv_update)
    from assms(2) recv(3) show "\<forall>w \<in> set (workers s). worker_ok s' w"
      unfolding recv(4) by (auto simp: worker_inv_def worker_ok_def)
    from worker_inv_nth[OF assms(2) recv(1)] recv(2)
    show "worker_ok s' ((workers s ! k)\<lparr>wpc := WExecute j\<rparr>)"
      by (simp add: worker_ok_def)
  qed
  then show ?thesis unfolding worker_inv_def by (simp add: recv(4))
next
  case leave
  have "\<forall>w \<in> set ((workers s)[k := (workers s ! k)\<lparr>wpc := WSignal\<rparr>]). worker_ok s' w"
  proof (rule worker_inv_update)
    from assms(2) show "\<forall>w \<in> set (workers s). worker_ok s' w"
      unfolding leave(5) by (simp add: worker_inv_def worker_ok_def)
    from worker_inv_nth[OF assms(2) leave(1)] leave(2,3,4)
    show "worker_ok s' ((workers s ! k)\<lparr>wpc := WSignal\<rparr>)"
      unfolding leave(5) by (simp add: worker_ok_def)
  qed
  then show ?thesis unfolding worker_inv_def by (simp add: leave(5))
next
  case (exec j)
  let ?w = "(workers s ! k)\<lparr>wpc := WRange, executed := executed (workers s ! k) + 1\<rparr>"
  have "\<forall>w \<in> set ((workers s)[k := ?w]). worker_ok s' w"
  proof (rule worker_inv_update)
    from assms(2) show "\<forall>w \<in> set (workers s). worker_ok s' w"
      unfolding exec(3) by (simp add: worker_inv_def worker_ok_def)
    from worker_inv_nth[OF assms(2) exec(1)] exec(2)
    show "worker_ok s' ?w"
      unfolding exec(3) by (simp add: worker_ok_def)
  qed
  then show ?thesis unfolding worker_inv_def by (simp add: exec(3))
next
  case panic
  with assms(1) show ?thesis by (simp add: frame_inv_def)
next
  case signal
  let ?w = "(workers s ! k)\<lparr>wpc := WReturned, signals := signals (workers s ! k) + 1\<rparr>"
  have "\<forall>w \<in> set ((workers s)[k := ?w]). worker_ok s' w"
  proof (rule worker_inv_update)
    from assms(2) show "\<forall>w \<in> set (workers s). worker_ok s' w"
      unfolding signal(5) by (simp add: worker_inv_def worker_ok_def)
    from worker_inv_nth[OF assms(2) signal(1)] signal(2)
    show "worker_ok s' ?w"
      unfolding signal(5) by (simp add: worker_ok_def)
  qed
  then show ?thesis unfolding worker_inv_def by (simp add: signal(5))
qed

lemma work_count:
  assumes "frame_inv n js s" "count_inv n s" "work k s = Some s'"
  shows "count_inv n s'"
  using assms(3)
proof (cases rule: work_cases)
  case (recv j rest)
  from signalled_update[OF recv(1), of "(workers s ! k)\<lparr>wpc := WExecute j\<rparr>"] recv assms(2)
  show ?thesis by (simp add: count_inv_def)
next
  case leave
  from signalled_update[OF leave(1), of "(workers s ! k)\<lparr>wpc := WSignal\<rparr>"] leave assms(2)
  show ?thesis by (simp add: count_inv_def)
next
  case (exec j)
  let ?w = "(workers s ! k)\<lparr>wpc := WRange, executed := executed (workers s ! k) + 1\<rparr>"
  from signalled_update[OF exec(1), of ?w] exec assms(2)
  show ?thesis by (simp add: count_inv_def)
next
  case panic
  with assms(1) show ?thesis by (simp add: frame_inv_def)
next
  case signal
  let ?w = "(workers s ! k)\<lparr>wpc := WReturned, signals := signals (workers s ! k) + 1\<rparr>"
  from signalled_update[OF signal(1), of ?w] signal assms(2)
  show ?thesis by (simp add: count_inv_def enqueue_def)
qed

lemma work_heap:
  assumes "frame_inv n js s" "heap_inv h s" "work k s = Some s'"
  shows "heap_inv h s'"
  using assms(3)
proof (cases rule: work_cases)
  case (recv j rest)
  with assms(2) show ?thesis by (simp add: heap_inv_def)
next
  case leave
  with assms(2) show ?thesis by (simp add: heap_inv_def)
next
  case (exec j)
  with assms(2) show ?thesis by (cases j) (auto simp: heap_inv_def)
next
  case panic
  with assms(1) show ?thesis by (simp add: frame_inv_def)
next
  case signal
  with assms(2) show ?thesis by (simp add: heap_inv_def)
qed

lemma work_inv: "inv n js h s \<Longrightarrow> work k s = Some s' \<Longrightarrow> inv n js h s'"
  unfolding inv_def
  using work_frame work_producer work_queue work_worker work_count work_heap
  by (elim conjE) (intro conjI; assumption?; blast)

lemma step_inv: "inv n js h s \<Longrightarrow> step a s = Some s' \<Longrightarrow> inv n js h s'"
  by (cases a)
     (auto simp: step_def split: if_splits
           intro: interrupt_inv produce_inv spawn_inv work_inv recvDone_inv recvPremature_inv)

lemma run_inv: "inv n js h s \<Longrightarrow> run sched s = Some s' \<Longrightarrow> inv n js h s'"
proof (induction sched arbitrary: s)
  case Nil
  then show ?case by simp
next
  case (Cons a sched)
  then show ?case by (auto split: option.splits dest: step_inv)
qed

lemma reachable_inv:
  "0 < n \<Longrightarrow> run sched (init_state n js h) = Some s \<Longrightarrow> inv n js h s"
  using run_inv[OF inv_init] .

lemma inflight_all_returned: "\<forall>w \<in> set ws. wpc w = WReturned \<Longrightarrow> inflight ws = {#}"
  unfolding inflight_def by (induction ws) auto

lemma signalled_all_one: "\<forall>w \<in> set ws. signals w = 1 \<Longrightarrow> signalled ws = length ws"
  unfolding signalled_def by (induction ws) auto

lemma returned_workers:
  assumes "inv n js h s" "coordinator s = CReturned"
  shows "length (workers s) = n" and "\<forall>w \<in> set (workers s). wpc w = WReturned \<and> signals w = 1"
    and "buf (doneChan s) = []" and "totalDone s = n"
proof -
  from assms have fr: "frame_inv n js s" and wi: "worker_inv s" and ci: "count_inv n s"
    by (simp_all add: inv_def)
  from ci assms(2) show td: "totalDone s = n" by (simp add: count_inv_def)
  from ci td have cnt: "signalled (workers s) = length (buf (doneChan s)) + n"
    by (simp add: count_inv_def)
  have le1: "\<forall>w \<in> set (workers s). signals w \<le> 1" by (rule worker_inv_signals_le[OF wi])
  from fr have "length (workers s) \<le> n" by (simp add: frame_inv_def)
  with signals_sum_le[OF le1] cnt
  have "length (workers s) = n \<and> length (buf (doneChan s)) = 0" by linarith
  then show len: "length (workers s) = n" and "buf (doneChan s) = []"
    by simp_all
  from cnt len have "length (workers s) \<le> signalled (workers s)" by simp
  from signals_sum_full[OF le1 this]
  have all1: "\<forall>w \<in> set (workers s). signals w = 1" .
  show "\<forall>w \<in> set (workers s). wpc w = WReturned \<and> signals w = 1"
  proof
    fix w assume w: "w \<in> set (workers s)"
    with wi have "signals w = (if wpc w = WReturned then 1 else 0)"
      by (simp add: worker_inv_def worker_ok_def)
    moreover from all1 w have "signals w = 1" by simp
    ultimately show "wpc w = WReturned \<and> signals w = 1"
      by (cases "wpc w = WReturned") simp_all
  qed
qed

lemma returned_queue:
  assumes "inv n js h s" "coordinator s = CReturned"
  shows "closed (jobsQueue s)" and "buf (jobsQueue s) = []" and "producer s = PReturned"
    and "mset (execlog s) = mset (sent s)"
proof -
  from assms(1) have pos: "0 < n" and wi: "worker_inv s" and pi: "producer_inv js s"
    and qi: "queue_inv s"
    by (simp_all add: inv_def)
  note rw = returned_workers[OF assms]
  from rw(1) pos have "workers s ! 0 \<in> set (workers s)" by simp
  with rw(2) wi have "wpc (workers s ! 0) = WReturned" and "worker_ok s (workers s ! 0)"
    by (simp_all add: worker_inv_def)
  then show cl: "closed (jobsQueue s)" and em: "buf (jobsQueue s) = []"
    by (simp_all add: worker_ok_def)
  from cl pi show "producer s = PReturned" by (simp add: producer_inv_def)
  from rw(2) have "inflight (workers s) = {#}" by (intro inflight_all_returned) simp
  with qi em show "mset (execlog s) = mset (sent s)" by (simp add: queue_inv_def)
qed

lemma observed_sent:
  assumes "inv n js h s" "observedAt s = Some K"
  shows "K = length (sent s)" and "K < length js" and "sent s = take K js"
    and "producer s = PEmit \<or> producer s = PCloseAbort \<or> producer s = PReturned"
proof -
  from assms(1) have pi: "producer_inv js s" by (simp add: inv_def)
  with assms(2) show k: "K = length (sent s)" and "K < length js"
    and "producer s = PEmit \<or> producer s = PCloseAbort \<or> producer s = PReturned"
    by (cases "producer s"; simp add: producer_inv_def split: if_splits)+
  from pi k show "sent s = take K js" by (simp add: producer_inv_def)
qed

lemma unobserved_returned:
  assumes "inv n js h s" "observedAt s = None" "producer s = PReturned"
  shows "sent s = js" and "cancels s = 0" and "err s = None"
  using assms by (simp_all add: inv_def producer_inv_def)

lemma observed_returned:
  assumes "inv n js h s" "observedAt s = Some K" "producer s = PReturned"
  shows "cancels s = 1" and "err s = Some ErrTasksNotCompleted"
  using assms by (simp_all add: inv_def producer_inv_def)

lemma executed_subset_sent: "inv n js h s \<Longrightarrow> mset (execlog s) \<subseteq># mset (sent s)"
  by (simp add: inv_def queue_inv_def)

lemma rank_update:
  "k < length ws \<Longrightarrow>
   sum_list (map (\<lambda>w. worker_rank (wpc w)) (ws[k := w'])) + worker_rank (wpc (ws ! k)) =
   sum_list (map (\<lambda>w. worker_rank (wpc w)) ws) + worker_rank (wpc w')"
  by (rule sum_list_map_update)

lemma produce_potential:
  assumes "frame_inv n js s" "producer_inv js s" "produce s = Some s'"
  shows "potential s' < potential s"
  using assms
  by (cases "producer s")
     (auto simp: frame_inv_def producer_inv_def produce_def close_jobsQueue_def chan_defs
           potential_def split: if_splits)

lemma spawn_potential: "spawn s = Some s' \<Longrightarrow> potential s' < potential s"
  by (auto simp: spawn_def potential_def split: if_splits)

lemma recvDone_potential:
  "frame_inv n js s \<Longrightarrow> recvDone s = Some s' \<Longrightarrow> potential s' < potential s"
  by (cases "buf (doneChan s)")
     (auto simp: frame_inv_def recvDone_def check_done_def chan_defs potential_def
           split: if_splits)

lemma recvPremature_potential: "recvPremature s = Some s' \<Longrightarrow> potential s' < potential s"
  by (auto simp: recvPremature_def check_done_def potential_def split: if_splits)

lemma interrupt_potential: "interrupt s = Some s' \<Longrightarrow> potential s' = potential s"
  by (auto simp: interrupt_def chan_defs potential_def split: if_splits)

lemma work_potential:
  assumes "frame_inv n js s" "work k s = Some s'"
  shows "potential s' < potential s"
  using assms(2)
proof (cases rule: work_cases)
  case (recv j rest)
  from rank_update[OF recv(1), of "(workers s ! k)\<lparr>wpc := WExecute j\<rparr>"] recv
  show ?thesis by (simp add: potential_def dequeue_def)
next
  case leave
  from rank_update[OF leave(1), of "(workers s ! k)\<lparr>wpc := WSignal\<rparr>"] leave
  show ?thesis by (simp add: potential_def)
next
  case (exec j)
  let ?w = "(workers s ! k)\<lparr>wpc := WRange, executed := executed (workers s ! k) + 1\<rparr>"
  from rank_update[OF exec(1), of ?w] exec
  show ?thesis by (simp add: potential_def)
next
  case panic
  with assms(1) show ?thesis by (simp add: frame_inv_def)
next
  case signal
  let ?w = "(workers s ! k)\<lparr>wpc := WReturned, signals := signals (workers s ! k) + 1\<rparr>"
  from rank_update[OF signal(1), of ?w] signal
  show ?thesis by (simp add: potential_def enqueue_def)
qed

lemma step_potential:
  assumes "inv n js h s" "step a s = Some s'"
  shows "potential s' + (if a = Interrupt then 0 else 1) \<le> potential s"
proof -
  from assms(1) have fr: "frame_inv n js s" and pi: "producer_inv js s"
    by (simp_all add: inv_def)
  from assms(2) have np: "\<not> panicked s" by (simp add: step_def split: if_splits)
  show ?thesis
  proof (cases a)
    case Interrupt
    with assms(2) np interrupt_potential[of s s'] show ?thesis by (simp add: step_def)
  next
    case Produce
    with assms(2) np produce_potential[OF fr pi, of s'] show ?thesis by (simp add: step_def)
  next
    case Spawn
    with assms(2) np spawn_potential[of s s'] show ?thesis by (simp add: step_def)
  next
    case (Work k)
    with assms(2) np work_potential[OF fr, of k s'] show ?thesis by (simp add: step_def)
  next
    case RecvDone
    with assms(2) np recvDone_potential[OF fr, of s'] show ?thesis by (simp add: step_def)
  next
    case RecvPremature
    with assms(2) np recvPremature_potential[of s s'] show ?thesis by (simp add: step_def)
  qed
qed

lemma run_potential:
  "inv n js h s \<Longrightarrow> run sched s = Some s' \<Longrightarrow> potential s' + program_steps sched \<le> potential s"
proof (induction sched arbitrary: s)
  case Nil
  then show ?case by (simp add: program_steps_def)
next
  case (Cons a sched)
  from Cons.prems(2) obtain t where st: "step a s = Some t" and rn: "run sched t = Some s'"
    by (auto split: option.splits)
  from step_inv[OF Cons.prems(1) st] have "inv n js h t" .
  from Cons.IH[OF this rn] step_potential[OF Cons.prems(1) st]
  show ?case by (simp add: program_steps_def split: if_splits)
qed

lemma potential_init: "potential (init_state n js h) = 4 * length js + 4 * n + 4"
  by (simp add: potential_def init_state_def make_chan_def)

lemma signal_enabled:
  assumes "inv n js h s" "k < length (workers s)" "wpc (workers s ! k) = WSignal"
  shows "\<exists>s'. work k s = Some s'"
proof -
  from assms(1) have fr: "frame_inv n js s" and wi: "worker_inv s" and ci: "count_inv n s"
    by (simp_all add: inv_def)
  from worker_inv_nth[OF wi assms(2)] assms(3) have "signals (workers s ! k) = 0"
    by (simp add: worker_ok_def)
  from signals_sum_less[OF worker_inv_signals_le[OF wi] assms(2) this]
  have "signalled (workers s) < length (workers s)" .
  with ci fr have "length (buf (doneChan s)) < cap (doneChan s)"
    by (simp add: count_inv_def frame_inv_def)
  with fr assms(2,3) show ?thesis
    by (simp add: work_def Let_def can_send_def frame_inv_def)
qed

lemma worker_enabled:
  assumes "inv n js h s" "k < length (workers s)" "wpc (workers s ! k) \<noteq> WReturned"
    and "closed (jobsQueue s) \<or> buf (jobsQueue s) \<noteq> []"
  shows "\<exists>s'. work k s = Some s'"
proof (cases "wpc (workers s ! k)")
  case WRange
  with assms(2,4) show ?thesis
    by (cases "buf (jobsQueue s)") (auto simp: work_def Let_def)
next
  case (WExecute j)
  with assms(2) show ?thesis by (simp add: work_def Let_def)
next
  case WSignal
  with assms(1,2) show ?thesis by (rule_tac signal_enabled)
next
  case WReturned
  with assms(3) show ?thesis by simp
qed

lemma all_returned_recvDone:
  assumes "inv n js h s" "coordinator s = CSelect" "length (workers s) = n"
    and "\<forall>k < length (workers s). wpc (workers s ! k) = WReturned"
  shows "\<exists>s'. recvDone s = Some s'"
proof -
  from assms(1) have wi: "worker_inv s" and ci: "count_inv n s"
    by (simp_all add: inv_def)
  have "\<forall>w \<in> set (workers s). signals w = 1"
  proof
    fix w assume w: "w \<in> set (workers s)"
    then obtain k where "k < length (workers s)" "workers s ! k = w"
      by (auto simp: in_set_conv_nth)
    with assms(4) have "wpc w = WReturned" by auto
    with wi w show "signals w = 1" by (simp add: worker_inv_def worker_ok_def)
  qed
  from signalled_all_one[OF this] assms(3) have "signalled (workers s) = n" by simp
  with ci assms(2) have "buf (doneChan s) \<noteq> []" by (auto simp: count_inv_def)
  with assms(2) show ?thesis by (simp add: recvDone_def can_recv_def)
qed

lemma drained_progress:
  assumes "inv n js h s" "coordinator s = CSelect"
    and "closed (jobsQueue s) \<or> buf (jobsQueue s) \<noteq> []"
  shows "(\<exists>s'. spawn s = Some s') \<or> (\<exists>k s'. work k s = Some s') \<or> (\<exists>s'. recvDone s = Some s')"
proof (cases "spawned s < workersNumber s")
  case True
  then show ?thesis by (simp add: spawn_def)
next
  case False
  with assms(1) have len: "length (workers s) = n"
    by (simp add: inv_def frame_inv_def)
  show ?thesis
  proof (cases "\<forall>k < length (workers s). wpc (workers s ! k) = WReturned")
    case True
    from all_returned_recvDone[OF assms(1,2) len True] show ?thesis by blast
  next
    case False
    then obtain k where "k < length (workers s)" "wpc (workers s ! k) \<noteq> WReturned" by blast
    from worker_enabled[OF assms(1) this assms(3)] show ?thesis by blast
  qed
qed

lemma progress_parts:
  assumes "inv n js h s" "coordinator s = CSelect"
  shows "(\<exists>s'. produce s = Some s') \<or> (\<exists>s'. recvPremature s = Some s') \<or>
    (\<exists>s'. spawn s = Some s') \<or> (\<exists>k s'. work k s = Some s') \<or> (\<exists>s'. recvDone s = Some s')"
proof -
  from assms(1) have pos: "0 < n" and fr: "frame_inv n js s" and pi: "producer_inv js s"
    by (simp_all add: inv_def)
  show ?thesis
  proof (cases "producer s")
    case PStart
    then show ?thesis by (simp add: produce_def)
  next
    case (PPoll i)
    then show ?thesis by (simp add: produce_def)
  next
    case (PSend i)
    show ?thesis
    proof (cases "can_send (jobsQueue s)")
      case True
      with PSend show ?thesis by (simp add: produce_def)
    next
      case False
      with fr pos have "buf (jobsQueue s) \<noteq> []"
        by (auto simp: can_send_def frame_inv_def)
      from drained_progress[OF assms] this show ?thesis by blast
    qed
  next
    case PEmit
    with assms(2) show ?thesis by (simp add: recvPremature_def)
  next
    case PCloseAbort
    then show ?thesis by (simp add: produce_def)
  next
    case PCloseEnd
    then show ?thesis by (simp add: produce_def)
  next
    case PReturned
    with pi have "closed (jobsQueue s)" by (simp add: producer_inv_def)
    from drained_progress[OF assms] this show ?thesis by blast
  qed
qed

lemma progress:
  assumes "inv n js h s" "coordinator s = CSelect"
  shows "\<exists>a s'. a \<noteq> Interrupt \<and> step a s = Some s'"
proof -
  from assms(1) have np: "\<not> panicked s" by (simp add: inv_def frame_inv_def)
  from progress_parts[OF assms]
  consider s' where "produce s = Some s'" | s' where "recvPremature s = Some s'"
    | s' where "spawn s = Some s'" | k s' where "work k s = Some s'"
    | s' where "recvDone s = Some s'"
    by blast
  then show ?thesis
  proof cases
    case 1
    with np have "Produce \<noteq> Interrupt \<and> step Produce s = Some s'" by (simp add: step_def)
    then show ?thesis by blast
  next
    case 2
    with np have "RecvPremature \<noteq> Interrupt \<and> step RecvPremature s = Some s'"
      by (simp add: step_def)
    then show ?thesis by blast
  next
    case 3
    with np have "Spawn \<noteq> Interrupt \<and> step Spawn s = Some s'" by (simp add: step_def)
    then show ?thesis by blast
  next
    case 4
    with np have "Work k \<noteq> Interrupt \<and> step (Work k) s = Some s'" by (simp add: step_def)
    then show ?thesis by blast
  next
    case 5
    with np have "RecvDone \<noteq> Interrupt \<and> step RecvDone s = Some s'" by (simp add: step_def)
    then show ?thesis by blast
  qed
qed

lemma quiet_step:
  assumes "step a s = Some s'" "a \<noteq> Interrupt" "buf (signalChan s) = []" "observedAt s = None"
    "\<not> closed (signalChan s)"
  shows "buf (signalChan s') = [] \<and> observedAt s' = None \<and> \<not> closed (signalChan s')"
proof (cases a)
  case Interrupt
  with assms(2) show ?thesis by simp
next
  case Produce
  with assms show ?thesis
    by (cases "producer s")
       (auto simp: step_def produce_def close_jobsQueue_def chan_defs split: if_splits)
next
  case Spawn
  with assms show ?thesis by (auto simp: step_def spawn_def split: if_splits)
next
  case (Work k)
  with assms(1) have "work k s = Some s'" by (simp add: step_def split: if_splits)
  then show ?thesis using assms(3,4,5) by (cases rule: work_cases) simp_all
next
  case RecvDone
  with assms show ?thesis by (auto simp: step_def recvDone_def check_done_def split: if_splits)
next
  case RecvPremature
  with assms show ?thesis
    by (auto simp: step_def recvPremature_def check_done_def split: if_splits)
qed

lemma quiet_run:
  "run sched s = Some s' \<Longrightarrow> Interrupt \<notin> set sched \<Longrightarrow> buf (signalChan s) = [] \<Longrightarrow>
   observedAt s = None \<Longrightarrow> \<not> closed (signalChan s) \<Longrightarrow> observedAt s' = None"
proof (induction sched arbitrary: s)
  case Nil
  then show ?case by simp
next
  case (Cons a sched)
  from Cons.prems(1) obtain t where st: "step a s = Some t" and rn: "run sched t = Some s'"
    by (auto split: option.splits)
  from Cons.prems(2) have "a \<noteq> Interrupt" and rest: "Interrupt \<notin> set sched" by auto
  from quiet_step[OF st this(1) Cons.prems(3,4,5)] Cons.IH[OF rn rest]
  show ?case by simp
qed

lemma quiet_reachable:
  "run sched (init_state n js h) = Some s \<Longrightarrow> Interrupt \<notin> set sched \<Longrightarrow> observedAt s = None"
  by (erule quiet_run) (simp_all add: init_state_def make_chan_def)

lemma program_steps_quiet: "Interrupt \<notin> set sched \<Longrightarrow> program_steps sched = length sched"
  unfolding program_steps_def by (induction sched) auto


lemmas run_defs = step_def produce_def spawn_def work_def recvDone_def recvPremature_def
  interrupt_def close_jobsQueue_def check_done_def init_state_def chan_defs Let_def

lemmas example_defs = example_jobs_def example_heap_def example_schedule_def
  example_cancelled_def example_empty_def

lemma example_schedule_returns:
  "\<exists>s. run example_schedule (init_state 2 example_jobs example_heap) = Some s \<and>
       coordinator s = CReturned \<and> observedAt s = None"
  by (simp add: example_defs run_defs)

lemma example_cancelled_returns:
  "\<exists>s. run example_cancelled (init_state 2 example_jobs example_heap) = Some s \<and>
       coordinator s = CReturned \<and> observedAt s = Some 1"
  by (simp add: example_defs run_defs)

lemma example_empty_returns:
  "\<exists>s. run example_empty (init_state 2 [] example_heap) = Some s \<and>
       coordinator s = CReturned \<and> (\<forall>w \<in> set (workers s). executed w = 0)"
  by (simp add: example_defs run_defs)

lemma cancels_le_one: "inv n js h s \<Longrightarrow> cancels s \<le> 1"
  by (cases "producer s") (simp_all add: inv_def producer_inv_def split: if_splits)

lemma only_producer_closes:
  assumes "step a s = Some s'" "a \<noteq> Produce"
  shows "closes s' = closes s \<and> closed (jobsQueue s') = closed (jobsQueue s) \<and>
         sent s' = sent s \<and> polls s' = polls s"
proof (cases a)
  case Interrupt
  with assms(1) show ?thesis by (auto simp: step_def interrupt_def split: if_splits)
next
  case Produce
  with assms(2) show ?thesis by simp
next
  case Spawn
  with assms(1) show ?thesis by (auto simp: step_def spawn_def split: if_splits)
next
  case (Work k)
  with assms(1) have "work k s = Some s'" by (simp add: step_def split: if_splits)
  then show ?thesis by (cases rule: work_cases) (simp_all add: dequeue_def)
next
  case RecvDone
  with assms(1) show ?thesis
    by (auto simp: step_def recvDone_def check_done_def split: if_splits)
next
  case RecvPremature
  with assms(1) show ?thesis
    by (auto simp: step_def recvPremature_def check_done_def split: if_splits)
qed

lemma leave_needs_closed:
  assumes "step (Work k) s = Some s'" "wpc (workers s ! k) = WRange"
    "wpc (workers s' ! k) = WSignal"
  shows "closed (jobsQueue s) \<and> buf (jobsQueue s) = []"
proof -
  from assms(1) have "work k s = Some s'" by (simp add: step_def split: if_splits)
  then show ?thesis using assms(2,3) by (cases rule: work_cases) simp_all
qed

lemma returned_blocked:
  "k < length (workers s) \<Longrightarrow> wpc (workers s ! k) = WReturned \<Longrightarrow> step (Work k) s = None"
  by (simp add: step_def work_def Let_def)

lemma signal_step:
  assumes "inv n js h s" "k < length (workers s)" "wpc (workers s ! k) = WSignal"
  shows "can_send (doneChan s) \<and>
         (\<exists>s'. step (Work k) s = Some s' \<and> wpc (workers s' ! k) = WReturned \<and>
               signals (workers s' ! k) = 1)"
proof -
  from assms(1) have fr: "frame_inv n js s" and wi: "worker_inv s"
    by (simp_all add: inv_def)
  from fr have np: "\<not> panicked s" and nc: "\<not> closed (doneChan s)"
    by (simp_all add: frame_inv_def)
  from signal_enabled[OF assms] obtain s' where w: "work k s = Some s'" by blast
  from worker_inv_nth[OF wi assms(2)] assms(3) have z: "signals (workers s ! k) = 0"
    by (simp add: worker_ok_def)
  from w assms(2,3) nc z
  have "can_send (doneChan s) \<and> wpc (workers s' ! k) = WReturned \<and>
        signals (workers s' ! k) = 1"
    by (cases rule: work_cases) simp_all
  with w np show ?thesis by (simp add: step_def)
qed

lemma swapped_run:
  "\<exists>t. run swapped_schedule (init_state 2 [j1, j2] h0) = Some t \<and>
       coordinator t = CReturned \<and> sent t = [j1, j2] \<and> execlog t = [j2, j1]"
  by (simp add: swapped_schedule_def run_defs)

lemma polls_bounds: "inv n js h s \<Longrightarrow> length (sent s) \<le> polls s \<and> polls s \<le> length (sent s) + 1"
  by (cases "producer s") (simp_all add: inv_def producer_inv_def split: if_splits)

lemma send_step:
  assumes "inv n js h s" "step Produce s = Some s'" "sent s' \<noteq> sent s"
  shows "sent s' = sent s @ [js ! length (sent s)] \<and> polls s = length (sent s) + 1 \<and>
         polls s' = polls s \<and> producer s' = PPoll (length (sent s'))"
proof -
  from assms(1) have fr: "frame_inv n js s" and pi: "producer_inv js s"
    by (simp_all add: inv_def)
  from assms(2) have p: "produce s = Some s'" by (simp add: step_def split: if_splits)
  from p assms(3) fr pi show ?thesis
    by (cases "producer s")
       (auto simp: produce_def close_jobsQueue_def frame_inv_def producer_inv_def
             split: if_splits)
qed

section \<open>The claims\<close>

text \<open>
  Claim C1. For a non-empty slice and a run in which no interrupt is delivered,
  \<^verbatim>\<open>RunBlocking\<close> returns \<^verbatim>\<open>nil\<close> after every task's \<^verbatim>\<open>Execute()\<close> has been called
  exactly once, and the \<^verbatim>\<open>done\<close> field of every \<^verbatim>\<open>*dummy\<close> task is then true for the
  caller. Stated on every interrupt-free schedule from the initial state: the schedule
  has at most \<open>4 * length js + 4 * n + 4\<close> steps; while the coordinator is still in its
  loop some goroutine can move, so the run cannot stop before the return; and once the
  coordinator has returned, \<open>err\<close> is \<open>None\<close>, the execution log is the slice as a
  multiset (no task missing, none twice), and the heap holds \<open>True\<close> at every pointer
  task.
\<close>

theorem run_blocking_executes_every_task_once:
  assumes "0 < n" and "js \<noteq> []"
    and "run sched (init_state n js h) = Some s"
    and "Interrupt \<notin> set sched"
  shows "length sched \<le> 4 * length js + 4 * n + 4 \<and>
         (coordinator s = CSelect \<longrightarrow> (\<exists>a s'. a \<noteq> Interrupt \<and> step a s = Some s')) \<and>
         (coordinator s = CReturned \<longrightarrow>
            err s = None \<and> mset (execlog s) = mset js \<and>
            (\<forall>a. DummyPtr a \<in> set js \<longrightarrow> done_of (heap s) (DummyPtr a)))"
proof (intro conjI impI)
  note I = reachable_inv[OF assms(1,3)]
  from run_potential[OF inv_init[OF assms(1)] assms(3)] program_steps_quiet[OF assms(4)]
  show "length sched \<le> 4 * length js + 4 * n + 4"
    by (simp add: potential_init)
  {
    assume "coordinator s = CSelect"
    from progress[OF I this] show "\<exists>a s'. a \<noteq> Interrupt \<and> step a s = Some s'" .
  }
  assume ret: "coordinator s = CReturned"
  note q = returned_queue[OF I ret]
  note u = unobserved_returned[OF I quiet_reachable[OF assms(3,4)] q(3)]
  from u(3) show "err s = None" .
  from q(4) u(1) show ms: "mset (execlog s) = mset js" by simp
  then have "set (execlog s) = set js" by (rule mset_eq_setD)
  with I show "\<forall>a. DummyPtr a \<in> set js \<longrightarrow> done_of (heap s) (DummyPtr a)"
    by (simp add: inv_def heap_inv_def)
qed

text \<open>
  The three example tasks on two workers, run to completion.
\<close>

theorem run_blocking_executes_every_task_once_witness:
  "\<exists>s. run example_schedule (init_state 2 example_jobs example_heap) = Some s \<and>
       coordinator s = CReturned \<and> err s = None \<and>
       mset (execlog s) = mset example_jobs \<and> heap s 0 \<and> heap s 1"
proof -
  from example_schedule_returns obtain s
    where r: "run example_schedule (init_state 2 example_jobs example_heap) = Some s"
      and c: "coordinator s = CReturned"
    by blast
  have p: "(0::nat) < 2" by simp
  have ne: "example_jobs \<noteq> []" by (simp add: example_jobs_def)
  have q: "Interrupt \<notin> set example_schedule" by (simp add: example_schedule_def)
  from run_blocking_executes_every_task_once[OF p ne r q] c
  have "err s = None \<and> mset (execlog s) = mset example_jobs \<and> heap s 0 \<and> heap s 1"
    by (simp add: example_jobs_def)
  with r c show ?thesis by (intro exI[of _ s]) simp
qed

text \<open>
  Claim C2. If the producer takes \<^verbatim>\<open>case <-signalChan\<close> at loop index \<open>K\<close>, that is
  after exactly \<open>K\<close> of the \<open>N\<close> tasks have been sent, then \<open>K < N\<close>, the tasks sent are
  and remain the first \<open>K\<close>, nothing outside them is ever executed, the run still
  cannot stop before the coordinator returns, and at the return \<open>err\<close> is
  \<^verbatim>\<open>ErrTasksNotCompleted\<close> and exactly the first \<open>K\<close> tasks have been executed.
\<close>

theorem cancellation_after_k_sends:
  assumes "0 < n"
    and "run sched (init_state n js h) = Some s"
    and "observedAt s = Some K"
  shows "K < length js \<and> sent s = take K js \<and>
         mset (execlog s) \<subseteq># mset (take K js) \<and>
         program_steps sched \<le> 4 * length js + 4 * n + 4 \<and>
         (coordinator s = CSelect \<longrightarrow> (\<exists>a s'. a \<noteq> Interrupt \<and> step a s = Some s')) \<and>
         (coordinator s = CReturned \<longrightarrow>
            err s = Some ErrTasksNotCompleted \<and> mset (execlog s) = mset (take K js))"
proof (intro conjI impI)
  note I = reachable_inv[OF assms(1,2)]
  note o = observed_sent[OF I assms(3)]
  show "K < length js" by (rule o(2))
  show "sent s = take K js" by (rule o(3))
  from executed_subset_sent[OF I] o(3) show "mset (execlog s) \<subseteq># mset (take K js)" by simp
  from run_potential[OF inv_init[OF assms(1)] assms(2)]
  show "program_steps sched \<le> 4 * length js + 4 * n + 4"
    by (simp add: potential_init)
  {
    assume "coordinator s = CSelect"
    from progress[OF I this] show "\<exists>a s'. a \<noteq> Interrupt \<and> step a s = Some s'" .
  }
  assume ret: "coordinator s = CReturned"
  note q = returned_queue[OF I ret]
  from observed_returned[OF I assms(3) q(3)] show "err s = Some ErrTasksNotCompleted" by simp
  from q(4) o(3) show "mset (execlog s) = mset (take K js)" by simp
qed

text \<open>
  An interrupt after the first of three sends: one task sent and executed, the
  sentinel returned.
\<close>

theorem cancellation_after_k_sends_witness:
  "\<exists>s. run example_cancelled (init_state 2 example_jobs example_heap) = Some s \<and>
       observedAt s = Some 1 \<and> coordinator s = CReturned \<and>
       err s = Some ErrTasksNotCompleted \<and> sent s = [DummyPtr 0] \<and>
       mset (execlog s) = {#DummyPtr 0#}"
proof -
  from example_cancelled_returns obtain s
    where r: "run example_cancelled (init_state 2 example_jobs example_heap) = Some s"
      and c: "coordinator s = CReturned" and o: "observedAt s = Some 1"
    by blast
  have p: "(0::nat) < 2" by simp
  from cancellation_after_k_sends[OF p r o] c
  have "err s = Some ErrTasksNotCompleted \<and> sent s = [DummyPtr 0] \<and>
        mset (execlog s) = {#DummyPtr 0#}"
    by (simp add: example_jobs_def)
  with r c o show ?thesis by (intro exI[of _ s]) simp
qed

text \<open>
  Claim C3. The coordinator returns only when it has received a value on
  \<^verbatim>\<open>doneChan\<close> from every worker: at the return \<open>totalDone\<close> is \<open>workersNumber\<close>, all
  \<open>workersNumber\<close> workers have been started, each has sent its value and returned, and
  nothing is left in the buffer. Receiving on \<^verbatim>\<open>prematureEnd\<close> sets \<open>err\<close> and leaves
  the coordinator in its loop, where it can always go on.
\<close>

theorem coordinator_waits_for_every_worker:
  assumes "0 < n"
    and "run sched (init_state n js h) = Some s"
  shows "(coordinator s = CReturned \<longrightarrow>
            totalDone s = n \<and> length (workers s) = n \<and> buf (doneChan s) = [] \<and>
            (\<forall>w \<in> set (workers s). wpc w = WReturned \<and> signals w = 1)) \<and>
         (\<forall>s'. step RecvPremature s = Some s' \<longrightarrow>
            err s' = Some ErrTasksNotCompleted \<and> coordinator s' = CSelect) \<and>
         (err s \<noteq> None \<and> coordinator s = CSelect \<longrightarrow>
            (\<exists>a s'. a \<noteq> Interrupt \<and> step a s = Some s'))"
proof (intro conjI impI allI)
  note I = reachable_inv[OF assms]
  {
    assume ret: "coordinator s = CReturned"
    note w = returned_workers[OF I ret]
    show "totalDone s = n" by (rule w(4))
    show "length (workers s) = n" by (rule w(1))
    show "buf (doneChan s) = []" by (rule w(3))
    show "\<forall>w \<in> set (workers s). wpc w = WReturned \<and> signals w = 1" by (rule w(2))
  }
  {
    fix s' assume st: "step RecvPremature s = Some s'"
    from step_inv[OF I st] have I': "inv n js h s'" .
    from st have "producer s' = PCloseAbort"
      by (auto simp: step_def recvPremature_def check_done_def split: if_splits)
    with I' have nc: "\<not> closed (jobsQueue s')" and e: "err s' = Some ErrTasksNotCompleted"
      by (simp_all add: inv_def producer_inv_def)
    from e show "err s' = Some ErrTasksNotCompleted" .
    show "coordinator s' = CSelect"
    proof (cases "coordinator s'")
      case CSelect
      then show ?thesis .
    next
      case CReturned
      from returned_queue(1)[OF I' CReturned] nc show ?thesis by simp
    qed
  }
  assume "err s \<noteq> None \<and> coordinator s = CSelect"
  then have "coordinator s = CSelect" by simp
  from progress[OF I this] show "\<exists>a s'. a \<noteq> Interrupt \<and> step a s = Some s'" .
qed

text \<open>
  The cancelled example: the error is set and both workers have returned when the
  coordinator returns.
\<close>

theorem coordinator_waits_for_every_worker_witness:
  "\<exists>s. run example_cancelled (init_state 2 example_jobs example_heap) = Some s \<and>
       coordinator s = CReturned \<and> err s = Some ErrTasksNotCompleted \<and>
       totalDone s = 2 \<and> map wpc (workers s) = [WReturned, WReturned]"
proof -
  have "\<exists>s. run example_cancelled (init_state 2 example_jobs example_heap) = Some s \<and>
       coordinator s = CReturned \<and> err s = Some ErrTasksNotCompleted"
    by (simp add: example_defs run_defs)
  then obtain s
    where r: "run example_cancelled (init_state 2 example_jobs example_heap) = Some s"
      and c: "coordinator s = CReturned" and e: "err s = Some ErrTasksNotCompleted"
    by blast
  have p: "(0::nat) < 2" by simp
  from coordinator_waits_for_every_worker[OF p r] c
  have td: "totalDone s = 2" and len: "length (workers s) = 2"
    and all: "\<forall>w \<in> set (workers s). wpc w = WReturned"
    by simp_all
  from len all have "map wpc (workers s) = [WReturned, WReturned]"
    by (cases "workers s"; simp) (rename_tac ws, case_tac ws; simp)
  with r c e td show ?thesis by (intro exI[of _ s]) simp
qed

text \<open>
  Claim C4. \<open>err\<close> is \<open>None\<close> exactly when the producer has sent nothing on
  \<^verbatim>\<open>prematureEnd\<close>, and otherwise it is \<^verbatim>\<open>ErrTasksNotCompleted\<close>; the producer sends
  there at most once, and it has returned when the coordinator returns, so the value
  of \<open>err\<close> at the return is final.
\<close>

theorem run_blocking_two_outcomes:
  assumes "0 < n"
    and "run sched (init_state n js h) = Some s"
  shows "(err s = None \<longleftrightarrow> cancels s = 0) \<and>
         (err s \<noteq> None \<longrightarrow> err s = Some ErrTasksNotCompleted) \<and>
         cancels s \<le> 1 \<and>
         (coordinator s = CReturned \<longrightarrow> producer s = PReturned)"
proof (intro conjI impI)
  note I = reachable_inv[OF assms]
  from I have e: "err s = (if cancels s = 0 then None else Some ErrTasksNotCompleted)"
    by (simp add: inv_def producer_inv_def)
  from e show "err s = None \<longleftrightarrow> cancels s = 0" by simp
  show "cancels s \<le> 1" by (rule cancels_le_one[OF I])
  {
    assume "err s \<noteq> None"
    with e show "err s = Some ErrTasksNotCompleted" by (simp split: if_splits)
  }
  assume "coordinator s = CReturned"
  from returned_queue(3)[OF I this] show "producer s = PReturned" .
qed

text \<open>
  The cancelled example returns the sentinel after one send on \<^verbatim>\<open>prematureEnd\<close>.
\<close>

theorem run_blocking_two_outcomes_witness:
  "\<exists>s. run example_cancelled (init_state 2 example_jobs example_heap) = Some s \<and>
       cancels s = 1 \<and> coordinator s = CReturned \<and> producer s = PReturned \<and>
       err s = Some ErrTasksNotCompleted"
proof -
  have "\<exists>s. run example_cancelled (init_state 2 example_jobs example_heap) = Some s \<and>
       cancels s = 1 \<and> coordinator s = CReturned"
    by (simp add: example_defs run_defs)
  then obtain s
    where r: "run example_cancelled (init_state 2 example_jobs example_heap) = Some s"
      and k: "cancels s = 1" and c: "coordinator s = CReturned"
    by blast
  have p: "(0::nat) < 2" by simp
  from run_blocking_two_outcomes[OF p r] k c
  have "producer s = PReturned \<and> err s = Some ErrTasksNotCompleted" by auto
  with r k c show ?thesis by (intro exI[of _ s]) simp
qed

text \<open>
  Claim C5. \<^verbatim>\<open>close(jobsQueue)\<close> is called at most once and never panics; it has been
  called exactly once when the producer has returned, on either path, and when the
  coordinator returns. Only a step of the producer changes the number of calls or the
  closed flag. A worker leaves its \<^verbatim>\<open>range\<close> loop only on a closed and empty queue.
\<close>

theorem jobsQueue_closed_once_by_producer:
  assumes "0 < n"
    and "run sched (init_state n js h) = Some s"
  shows "closes s \<le> 1 \<and> \<not> panicked s \<and>
         (closed (jobsQueue s) \<longleftrightarrow> closes s = 1) \<and>
         (producer s = PReturned \<longrightarrow> closes s = 1) \<and>
         (coordinator s = CReturned \<longrightarrow> closes s = 1) \<and>
         (\<forall>a s'. step a s = Some s' \<and>
             (closes s' \<noteq> closes s \<or> closed (jobsQueue s') \<noteq> closed (jobsQueue s))
             \<longrightarrow> a = Produce) \<and>
         (\<forall>k s'. step (Work k) s = Some s' \<and> wpc (workers s ! k) = WRange \<and>
             wpc (workers s' ! k) = WSignal
             \<longrightarrow> closed (jobsQueue s) \<and> buf (jobsQueue s) = [])"
proof -
  note I = reachable_inv[OF assms]
  from I have c: "closes s = (if closed (jobsQueue s) then 1 else 0)"
    and r: "closed (jobsQueue s) \<longleftrightarrow> producer s = PReturned"
    and np: "\<not> panicked s"
    by (simp_all add: inv_def producer_inv_def frame_inv_def)
  have ret: "coordinator s = CReturned \<longrightarrow> closes s = 1"
    using returned_queue(1)[OF I] c by simp
  have only: "\<forall>a s'. step a s = Some s' \<and>
             (closes s' \<noteq> closes s \<or> closed (jobsQueue s') \<noteq> closed (jobsQueue s))
             \<longrightarrow> a = Produce"
    using only_producer_closes by blast
  have leave: "\<forall>k s'. step (Work k) s = Some s' \<and> wpc (workers s ! k) = WRange \<and>
             wpc (workers s' ! k) = WSignal
             \<longrightarrow> closed (jobsQueue s) \<and> buf (jobsQueue s) = []"
    using leave_needs_closed by blast
  from c r np have "closes s \<le> 1 \<and> \<not> panicked s \<and>
         (closed (jobsQueue s) \<longleftrightarrow> closes s = 1) \<and>
         (producer s = PReturned \<longrightarrow> closes s = 1)"
    by simp
  with ret only leave show ?thesis by blast
qed

text \<open>
  The completed example: one close, no panic.
\<close>

theorem jobsQueue_closed_once_by_producer_witness:
  "\<exists>s. run example_schedule (init_state 2 example_jobs example_heap) = Some s \<and>
       coordinator s = CReturned \<and> closes s = 1 \<and> closed (jobsQueue s) \<and> \<not> panicked s"
proof -
  from example_schedule_returns obtain s
    where r: "run example_schedule (init_state 2 example_jobs example_heap) = Some s"
      and c: "coordinator s = CReturned"
    by blast
  have p: "(0::nat) < 2" by simp
  from jobsQueue_closed_once_by_producer[OF p r] c
  have "closes s = 1 \<and> closed (jobsQueue s) \<and> \<not> panicked s" by simp
  with r c show ?thesis by (intro exI[of _ s]) simp
qed

text \<open>
  Claim C6. A worker has sent on \<^verbatim>\<open>doneChan\<close> once if it has returned and not at
  all otherwise; it is past its loop only when \<^verbatim>\<open>jobsQueue\<close> is closed and empty; at
  the send it is never blocked and the send takes it to its return; a returned worker
  makes no further step. When the coordinator returns, every one of the
  \<open>workersNumber\<close> workers has sent exactly once. Nothing here depends on how many
  tasks the worker executed.
\<close>

theorem worker_signals_exactly_once:
  assumes "0 < n"
    and "run sched (init_state n js h) = Some s"
  shows "(\<forall>w \<in> set (workers s).
            signals w = (if wpc w = WReturned then 1 else 0) \<and>
            (wpc w = WSignal \<or> wpc w = WReturned \<longrightarrow>
               closed (jobsQueue s) \<and> buf (jobsQueue s) = [])) \<and>
         (\<forall>k < length (workers s). wpc (workers s ! k) = WSignal \<longrightarrow>
            (\<exists>s'. step (Work k) s = Some s' \<and> wpc (workers s' ! k) = WReturned \<and>
                  signals (workers s' ! k) = 1)) \<and>
         (\<forall>k < length (workers s). wpc (workers s ! k) = WReturned \<longrightarrow>
            step (Work k) s = None) \<and>
         (coordinator s = CReturned \<longrightarrow>
            length (workers s) = n \<and> (\<forall>w \<in> set (workers s). signals w = 1))"
proof (intro conjI)
  note I = reachable_inv[OF assms]
  from I have wi: "worker_inv s" by (simp add: inv_def)
  show "\<forall>w \<in> set (workers s).
            signals w = (if wpc w = WReturned then 1 else 0) \<and>
            (wpc w = WSignal \<or> wpc w = WReturned \<longrightarrow>
               closed (jobsQueue s) \<and> buf (jobsQueue s) = [])"
  proof
    fix w assume "w \<in> set (workers s)"
    with wi have "worker_ok s w" by (simp add: worker_inv_def)
    then show "signals w = (if wpc w = WReturned then 1 else 0) \<and>
            (wpc w = WSignal \<or> wpc w = WReturned \<longrightarrow>
               closed (jobsQueue s) \<and> buf (jobsQueue s) = [])"
      unfolding worker_ok_def by blast
  qed
  show "\<forall>k < length (workers s). wpc (workers s ! k) = WSignal \<longrightarrow>
            (\<exists>s'. step (Work k) s = Some s' \<and> wpc (workers s' ! k) = WReturned \<and>
                  signals (workers s' ! k) = 1)"
    using signal_step[OF I] by blast
  show "\<forall>k < length (workers s). wpc (workers s ! k) = WReturned \<longrightarrow>
            step (Work k) s = None"
    using returned_blocked by blast
  show "coordinator s = CReturned \<longrightarrow>
            length (workers s) = n \<and> (\<forall>w \<in> set (workers s). signals w = 1)"
  proof
    assume ret: "coordinator s = CReturned"
    from returned_workers(1,2)[OF I ret]
    show "length (workers s) = n \<and> (\<forall>w \<in> set (workers s). signals w = 1)" by blast
  qed
qed

text \<open>
  The empty slice: both workers execute nothing and send exactly once.
\<close>

theorem worker_signals_exactly_once_witness:
  "\<exists>s. run example_empty (init_state 2 [] example_heap) = Some s \<and>
       coordinator s = CReturned \<and> length (workers s) = 2 \<and>
       (\<forall>w \<in> set (workers s). executed w = 0 \<and> signals w = 1)"
proof -
  from example_empty_returns obtain s
    where r: "run example_empty (init_state 2 [] example_heap) = Some s"
      and c: "coordinator s = CReturned"
      and z: "\<forall>w \<in> set (workers s). executed w = 0"
    by blast
  have p: "(0::nat) < 2" by simp
  from worker_signals_exactly_once[OF p r] c
  have "length (workers s) = 2 \<and> (\<forall>w \<in> set (workers s). signals w = 1)" by blast
  with r c z show ?thesis by (intro exI[of _ s]) simp
qed

text \<open>
  Claim C7. The tasks sent so far are always a prefix of the slice, in its order.
  The producer has polled as many times as it has sent, or once more; a step that sends
  appends exactly the next element of the slice, happens after the poll of that
  iteration, and leads to the next poll; no other goroutine sends or polls. The order
  of execution is not fixed by the order of sending: with two workers and two tasks
  there is a complete run that executes the second task first.
\<close>

theorem producer_sends_in_input_order:
  assumes "0 < n"
    and "run sched (init_state n js h) = Some s"
  shows "sent s = take (length (sent s)) js \<and>
         length (sent s) \<le> polls s \<and> polls s \<le> length (sent s) + 1 \<and>
         (\<forall>s'. step Produce s = Some s' \<and> sent s' \<noteq> sent s \<longrightarrow>
            sent s' = sent s @ [js ! length (sent s)] \<and>
            polls s = length (sent s) + 1 \<and> polls s' = polls s \<and>
            producer s' = PPoll (length (sent s'))) \<and>
         (\<forall>a s'. step a s = Some s' \<and> a \<noteq> Produce \<longrightarrow>
            sent s' = sent s \<and> polls s' = polls s) \<and>
         (\<forall>j1 j2 h0. \<exists>sched' t. run sched' (init_state 2 [j1, j2] h0) = Some t \<and>
            coordinator t = CReturned \<and> sent t = [j1, j2] \<and> execlog t = [j2, j1])"
proof (intro conjI)
  note I = reachable_inv[OF assms]
  from I show "sent s = take (length (sent s)) js" by (simp add: inv_def producer_inv_def)
  from polls_bounds[OF I] show "length (sent s) \<le> polls s"
    and "polls s \<le> length (sent s) + 1" by simp_all
  show "\<forall>s'. step Produce s = Some s' \<and> sent s' \<noteq> sent s \<longrightarrow>
            sent s' = sent s @ [js ! length (sent s)] \<and>
            polls s = length (sent s) + 1 \<and> polls s' = polls s \<and>
            producer s' = PPoll (length (sent s'))"
    using send_step[OF I] by blast
  show "\<forall>a s'. step a s = Some s' \<and> a \<noteq> Produce \<longrightarrow>
            sent s' = sent s \<and> polls s' = polls s"
    using only_producer_closes by blast
  show "\<forall>j1 j2 h0. \<exists>sched' t. run sched' (init_state 2 [j1, j2] h0) = Some t \<and>
            coordinator t = CReturned \<and> sent t = [j1, j2] \<and> execlog t = [j2, j1]"
    using swapped_run by blast
qed

text \<open>
  The cancelled example: two polls, one send, which is the first element.
\<close>

theorem producer_sends_in_input_order_witness:
  "\<exists>s. run example_cancelled (init_state 2 example_jobs example_heap) = Some s \<and>
       sent s = [DummyPtr 0] \<and> polls s = 2"
proof -
  have "\<exists>s. run example_cancelled (init_state 2 example_jobs example_heap) = Some s \<and>
       polls s = 2 \<and> length (sent s) = 1"
    by (simp add: example_defs run_defs)
  then obtain s
    where r: "run example_cancelled (init_state 2 example_jobs example_heap) = Some s"
      and q: "polls s = 2" and l: "length (sent s) = 1"
    by blast
  have p: "(0::nat) < 2" by simp
  from producer_sends_in_input_order[OF p r] l
  have "sent s = [DummyPtr 0]" by (simp add: example_jobs_def)
  with r q show ?thesis by (intro exI[of _ s]) simp
qed

text \<open>
  Claim C8. \<open>workersNumber\<close> keeps the value it was initialised with from
  \<^verbatim>\<open>runtime.NumCPU()\<close>, both channels have that capacity, \<^verbatim>\<open>jobsQueue\<close> never holds
  more, never more workers than that are started, and exactly that many have been
  started when the coordinator returns.
\<close>

theorem worker_count_fixed:
  assumes "0 < n"
    and "run sched (init_state n js h) = Some s"
  shows "workersNumber s = n \<and> cap (jobsQueue s) = n \<and> cap (doneChan s) = n \<and>
         length (buf (jobsQueue s)) \<le> n \<and>
         length (workers s) = spawned s \<and> spawned s \<le> n \<and>
         (coordinator s = CReturned \<longrightarrow> length (workers s) = n)"
proof -
  note I = reachable_inv[OF assms]
  from I have "frame_inv n js s" by (simp add: inv_def)
  then have "workersNumber s = n \<and> cap (jobsQueue s) = n \<and> cap (doneChan s) = n \<and>
         length (buf (jobsQueue s)) \<le> n \<and>
         length (workers s) = spawned s \<and> spawned s \<le> n"
    by (simp add: frame_inv_def)
  moreover have "coordinator s = CReturned \<longrightarrow> length (workers s) = n"
    using returned_workers(1)[OF I] by blast
  ultimately show ?thesis by blast
qed

text \<open>
  The completed example on two processors.
\<close>

theorem worker_count_fixed_witness:
  "\<exists>s. run example_schedule (init_state 2 example_jobs example_heap) = Some s \<and>
       coordinator s = CReturned \<and> workersNumber s = 2 \<and> cap (jobsQueue s) = 2 \<and>
       length (workers s) = 2"
proof -
  from example_schedule_returns obtain s
    where r: "run example_schedule (init_state 2 example_jobs example_heap) = Some s"
      and c: "coordinator s = CReturned"
    by blast
  have p: "(0::nat) < 2" by simp
  from worker_count_fixed[OF p r] c
  have "workersNumber s = 2 \<and> cap (jobsQueue s) = 2 \<and> length (workers s) = 2" by simp
  with r c show ?thesis by (intro exI[of _ s]) simp
qed

text \<open>
  Claim C9. The caller's slice is never changed. The heap changes only at the
  address of an executed \<^verbatim>\<open>*dummy\<close>, where \<^verbatim>\<open>done\<close> becomes true. So what the caller
  reads from a task after the run is, for a \<^verbatim>\<open>dummyNop\<close> value, the \<^verbatim>\<open>done\<close> it was
  given, executed or not, and for a \<^verbatim>\<open>*dummy\<close>, true as soon as it has been executed.
  At the return of a run without cancellation every task has been executed.
\<close>

theorem value_receiver_mutation_lost:
  assumes "0 < n"
    and "run sched (init_state n js h) = Some s"
  shows "jobs s = js \<and>
         (\<forall>a. heap s a = (h a \<or> DummyPtr a \<in> set (execlog s))) \<and>
         (\<forall>t \<in> set (jobs s).
            done_of (heap s) t =
              (case t of DummyNop d \<Rightarrow> d
               | DummyPtr a \<Rightarrow> h a \<or> t \<in> set (execlog s))) \<and>
         (coordinator s = CReturned \<and> observedAt s = None \<longrightarrow> set (execlog s) = set js)"
proof (intro conjI)
  note I = reachable_inv[OF assms]
  from I show "jobs s = js" by (simp add: inv_def frame_inv_def)
  from I show hp: "\<forall>a. heap s a = (h a \<or> DummyPtr a \<in> set (execlog s))"
    by (simp add: inv_def heap_inv_def)
  show "\<forall>t \<in> set (jobs s).
            done_of (heap s) t =
              (case t of DummyNop d \<Rightarrow> d
               | DummyPtr a \<Rightarrow> h a \<or> t \<in> set (execlog s))"
  proof
    fix t assume "t \<in> set (jobs s)"
    from hp show "done_of (heap s) t =
              (case t of DummyNop d \<Rightarrow> d
               | DummyPtr a \<Rightarrow> h a \<or> t \<in> set (execlog s))"
      by (cases t) simp_all
  qed
  show "coordinator s = CReturned \<and> observedAt s = None \<longrightarrow> set (execlog s) = set js"
  proof
    assume a: "coordinator s = CReturned \<and> observedAt s = None"
    then have ret: "coordinator s = CReturned" and un: "observedAt s = None" by simp_all
    note q = returned_queue[OF I ret]
    from unobserved_returned(1)[OF I un q(3)] q(4) have "mset (execlog s) = mset js" by simp
    then show "set (execlog s) = set js" by (rule mset_eq_setD)
  qed
qed

text \<open>
  The completed example: the \<^verbatim>\<open>dummyNop\<close> has been executed and still reads false,
  the two \<^verbatim>\<open>*dummy\<close> read true.
\<close>

theorem value_receiver_mutation_lost_witness:
  "\<exists>s. run example_schedule (init_state 2 example_jobs example_heap) = Some s \<and>
       coordinator s = CReturned \<and> jobs s = example_jobs \<and>
       DummyNop False \<in> set (execlog s) \<and>
       map (done_of (heap s)) (jobs s) = [True, False, True]"
proof -
  from example_schedule_returns obtain s
    where r: "run example_schedule (init_state 2 example_jobs example_heap) = Some s"
      and c: "coordinator s = CReturned" and u: "observedAt s = None"
    by blast
  have p: "(0::nat) < 2" by simp
  from value_receiver_mutation_lost[OF p r] c u
  have j: "jobs s = example_jobs" and e: "set (execlog s) = set example_jobs"
    and d: "\<forall>t \<in> set (jobs s).
            done_of (heap s) t =
              (case t of DummyNop d \<Rightarrow> d
               | DummyPtr a \<Rightarrow> example_heap a \<or> t \<in> set (execlog s))"
    by simp_all
  from e have "DummyNop False \<in> set (execlog s)" by (simp add: example_jobs_def)
  moreover from d j e have "map (done_of (heap s)) (jobs s) = [True, False, True]"
    by (simp add: example_jobs_def example_heap_def)
  ultimately show ?thesis using r c j by (intro exI[of _ s]) simp
qed

text \<open>
  Claim C10. \<^verbatim>\<open>doneChan\<close> has capacity \<open>workersNumber\<close>; the values buffered in it
  and those counted in \<open>totalDone\<close> are exactly those the workers have sent, at most one
  per worker, so \<open>totalDone\<close> never exceeds \<open>workersNumber\<close> and a worker at its send
  always finds room. The coordinator has returned exactly when \<open>totalDone\<close> equals
  \<open>workersNumber\<close>; until then some goroutine can move, and a run has at most
  \<open>4 * length js + 4 * n + 4\<close> program steps, so the exit test is reached.
\<close>

theorem doneChan_never_blocks:
  assumes "0 < n"
    and "run sched (init_state n js h) = Some s"
  shows "cap (doneChan s) = n \<and>
         length (buf (doneChan s)) + totalDone s = signalled (workers s) \<and>
         signalled (workers s) \<le> length (workers s) \<and> length (workers s) \<le> n \<and>
         totalDone s \<le> n \<and>
         (\<forall>w \<in> set (workers s). signals w \<le> 1) \<and>
         (\<forall>k < length (workers s). wpc (workers s ! k) = WSignal \<longrightarrow>
            can_send (doneChan s) \<and> (\<exists>s'. step (Work k) s = Some s')) \<and>
         (coordinator s = CReturned \<longleftrightarrow> totalDone s = n) \<and>
         (coordinator s = CSelect \<longrightarrow> (\<exists>a s'. a \<noteq> Interrupt \<and> step a s = Some s')) \<and>
         program_steps sched \<le> 4 * length js + 4 * n + 4"
proof (intro conjI)
  note I = reachable_inv[OF assms]
  from I have fr: "frame_inv n js s" and wi: "worker_inv s" and ci: "count_inv n s"
    by (simp_all add: inv_def)
  from fr show "cap (doneChan s) = n" and len: "length (workers s) \<le> n"
    by (simp_all add: frame_inv_def)
  from ci show cnt: "length (buf (doneChan s)) + totalDone s = signalled (workers s)"
    by (simp add: count_inv_def)
  show le1: "\<forall>w \<in> set (workers s). signals w \<le> 1" by (rule worker_inv_signals_le[OF wi])
  from signals_sum_le[OF le1] show sl: "signalled (workers s) \<le> length (workers s)" .
  from cnt sl len show "totalDone s \<le> n" by linarith
  show "\<forall>k < length (workers s). wpc (workers s ! k) = WSignal \<longrightarrow>
            can_send (doneChan s) \<and> (\<exists>s'. step (Work k) s = Some s')"
    using signal_step[OF I] by blast
  from ci show "coordinator s = CReturned \<longleftrightarrow> totalDone s = n"
    by (cases "coordinator s") (simp_all add: count_inv_def)
  show "coordinator s = CSelect \<longrightarrow> (\<exists>a s'. a \<noteq> Interrupt \<and> step a s = Some s')"
    using progress[OF I] by blast
  from run_potential[OF inv_init[OF assms(1)] assms(2)]
  show "program_steps sched \<le> 4 * length js + 4 * n + 4"
    by (simp add: potential_init)
qed

text \<open>
  The completed example: two values sent, both counted.
\<close>

theorem doneChan_never_blocks_witness:
  "\<exists>s. run example_schedule (init_state 2 example_jobs example_heap) = Some s \<and>
       coordinator s = CReturned \<and> totalDone s = 2 \<and> cap (doneChan s) = 2 \<and>
       signalled (workers s) = 2"
proof -
  have "\<exists>s. run example_schedule (init_state 2 example_jobs example_heap) = Some s \<and>
       coordinator s = CReturned \<and> buf (doneChan s) = []"
    by (simp add: example_defs run_defs)
  then obtain s
    where r: "run example_schedule (init_state 2 example_jobs example_heap) = Some s"
      and c: "coordinator s = CReturned" and b: "buf (doneChan s) = []"
    by blast
  have p: "(0::nat) < 2" by simp
  from doneChan_never_blocks[OF p r] c b
  have "totalDone s = 2 \<and> cap (doneChan s) = 2 \<and> signalled (workers s) = 2" by simp
  with r c show ?thesis by (intro exI[of _ s]) simp
qed

end
